theory Spec2Isabelle
  imports Main "HOL-Library.List_Lexorder" "HOL-Library.Char_ord" "HOL-Library.Signed_Division"
    "HOL-Library.Sublist"
begin

section \<open>Licenses and the registry (licenses/registry.go)\<close>

text \<open>
  A Go \<open>string\<close> is a sequence of bytes and is compared bytewise; it is modelled as a
  \<open>char list\<close> under the lexicographic order on lists of 8-bit characters.
\<close>

record License =
  Name :: string
  Slug :: string
  URL :: string
  Text :: string
  PerFile :: string

record registry =
  known :: "License list"

text \<open>
  The run-time panics that the registry code can raise: the two \<open>log.Panic\<close> calls of
  \<open>Register\<close>, an index out of range and a slice bound out of range.
\<close>

datatype panic = EmptySlug | DuplicateSlug string | IndexOutOfRange | SliceOutOfRange

text \<open>
  The loop of \<open>registry.lookup\<close> over the loop variables \<open>i\<close> and \<open>j\<close>. Go's \<open>int\<close>
  is taken as an unbounded integer (a slice of licenses is far shorter than \<open>2^62\<close>, so
  \<open>i + j\<close> does not wrap); \<open>/\<close> truncates towards zero. The result \<open>None\<close> stands for
  a loop that never exits.
\<close>

partial_function (option) lookup_loop ::
  "License list \<Rightarrow> string \<Rightarrow> int \<Rightarrow> int \<Rightarrow> (panic + int \<times> bool) option"
where
  "lookup_loop ks slug i j =
     (if i \<le> j then
        (let m = (i + j) sdiv 2 in
         if m < 0 \<or> int (length ks) \<le> m then Some (Inl IndexOutOfRange)
         else (let cur = Slug (ks ! nat m) in
           if slug = cur then Some (Inr (m, True))
           else if slug < cur then lookup_loop ks slug i m
           else lookup_loop ks slug (m + 1) j))
      else Some (Inr (i, False)))"

definition lookup :: "registry \<Rightarrow> string \<Rightarrow> (panic + int \<times> bool) option" where
  "lookup r slug = lookup_loop (known r) slug 0 (int (length (known r)) - 1)"

text \<open>\<open>registry.fetch\<close>: a copy of the entry found, or \<open>nil\<close>.\<close>

definition fetch :: "registry \<Rightarrow> string \<Rightarrow> (panic + License option) option" where
  "fetch r slug =
     (case lookup r slug of
        None \<Rightarrow> None
      | Some (Inl p) \<Rightarrow> Some (Inl p)
      | Some (Inr (i, ok)) \<Rightarrow>
          if ok then
            (if i < 0 \<or> int (length (known r)) \<le> i then Some (Inl IndexOutOfRange)
             else Some (Inr (Some (known r ! nat i))))
          else Some (Inr None))"

text \<open>\<open>registry.visit\<close> calls \<open>f\<close> on each entry in list order; the calls are collected.\<close>

definition visit :: "registry \<Rightarrow> (License \<Rightarrow> 'a) \<Rightarrow> 'a list" where
  "visit r f = map f (known r)"

text \<open>
  \<open>registry.insert\<close>. The inner \<open>append(r.known[:i], lic)\<close> writes \<open>lic\<close> into the shared
  backing array at index \<open>i\<close> whenever \<open>i < len(r.known)\<close>, so the tail \<open>r.known[i:]\<close>
  that the outer \<open>append\<close> copies is read from the updated array.
\<close>

definition insert_r :: "registry \<Rightarrow> License \<Rightarrow> (panic + bool \<times> registry) option" where
  "insert_r r lic =
     (case lookup r (Slug lic) of
        None \<Rightarrow> None
      | Some (Inl p) \<Rightarrow> Some (Inl p)
      | Some (Inr (i, ok)) \<Rightarrow>
          if ok then Some (Inr (False, r))
          else if i < 0 \<or> int (length (known r)) < i then Some (Inl SliceOutOfRange)
          else Some (Inr (True,
                 r\<lparr>known := take (nat i) (known r) @ [lic] @
                               drop (nat i) ((known r)[nat i := lic])\<rparr>)))"

text \<open>
  \<open>Register\<close>, \<open>Lookup\<close> and \<open>List\<close> act on the global registry, which is passed
  explicitly. \<open>Register\<close> yields the panic raised, if any, and the registry afterwards.
\<close>

definition Register :: "License \<Rightarrow> registry \<Rightarrow> (panic option \<times> registry) option" where
  "Register lic g =
     (if Slug lic = [] then Some (Some EmptySlug, g)
      else (case insert_r g lic of
              None \<Rightarrow> None
            | Some (Inl p) \<Rightarrow> Some (Some p, g)
            | Some (Inr (ok, g')) \<Rightarrow>
                if \<not> ok then Some (Some (DuplicateSlug (Slug lic)), g')
                else Some (None, g')))"

definition Lookup :: "registry \<Rightarrow> string \<Rightarrow> (panic + License option) option" where
  "Lookup g slug = fetch g slug"

definition List :: "registry \<Rightarrow> (License \<Rightarrow> 'a) \<Rightarrow> 'a list" where
  "List g f = visit g f"

text \<open>A run of \<open>Register\<close> calls in order, stopping at the first panic.\<close>

fun Register_all :: "License list \<Rightarrow> registry \<Rightarrow> (panic option \<times> registry) option" where
  "Register_all [] g = Some (None, g)"
| "Register_all (lic # lics) g =
     (case Register lic g of
        None \<Rightarrow> None
      | Some (Some p, g') \<Rightarrow> Some (Some p, g')
      | Some (None, g') \<Rightarrow> Register_all lics g')"

definition new_registry :: registry where
  "new_registry = \<lparr>known = []\<rparr>"

definition slug_only :: "string \<Rightarrow> License" where
  "slug_only s = \<lparr>Name = [], Slug = s, URL = [], Text = [], PerFile = []\<rparr>"


section \<open>Text blocks (licenses/text.go)\<close>

abbreviation TAB :: char where "TAB \<equiv> CHR 0x09"
abbreviation LF :: char where "LF \<equiv> CHR 0x0A"
abbreviation CR :: char where "CR \<equiv> CHR 0x0D"
abbreviation SP :: char where "SP \<equiv> CHR 0x20"

text \<open>The cut set \<open>" \t\r\n"\<close> that the code passes to \<open>strings.TrimRight\<close>.\<close>

definition cutset :: string where
  "cutset = [SP, TAB, CR, LF]"

text \<open>
  The functions of Go's \<open>strings\<close> package that the code calls, after their documentation.
  The separator of \<open>Split\<close> and the replaced string of \<open>Replace\<close> are always the single
  bytes \<open>"\n"\<close> and \<open>"\t"\<close>, and \<open>Replace\<close> is always called with \<open>n = -1\<close> (replace all).
  The cut set is ASCII, so trimming runes and trimming bytes agree.
\<close>

definition TrimRight :: "string \<Rightarrow> string \<Rightarrow> string" where
  "TrimRight s cs = rev (dropWhile (\<lambda>c. c \<in> set cs) (rev s))"

fun Split :: "string \<Rightarrow> char \<Rightarrow> string list" where
  "Split [] sep = [[]]"
| "Split (c # cs) sep =
     (if c = sep then [] # Split cs sep
      else (c # hd (Split cs sep)) # tl (Split cs sep))"

fun Join :: "string list \<Rightarrow> string \<Rightarrow> string" where
  "Join [] sep = []"
| "Join [l] sep = l"
| "Join (l # ls) sep = l @ sep @ Join ls sep"

definition Replace :: "string \<Rightarrow> char \<Rightarrow> string \<Rightarrow> string" where
  "Replace s old new = concat (map (\<lambda>c. if c = old then new else [c]) s)"

definition Repeat :: "string \<Rightarrow> nat \<Rightarrow> string" where
  "Repeat s n = concat (replicate n s)"

definition TrimPrefix :: "string \<Rightarrow> string \<Rightarrow> string" where
  "TrimPrefix s p = (if prefix p s then drop (length p) s else s)"

text \<open>
  \<open>unicode.IsSpace\<close> holds of the runes with Unicode's White_Space property:
  U+0009 to U+000D, U+0020, U+0085, U+00A0, U+1680, U+2000 to U+200A, U+2028, U+2029,
  U+202F, U+205F and U+3000. \<open>spaceRune s\<close> is the number of bytes of the UTF-8 encoding
  of such a rune at the head of \<open>s\<close>, and \<open>0\<close> when \<open>s\<close> is empty or starts with anything
  else (a byte sequence that is not valid UTF-8 decodes to U+FFFD, which is not a space).
\<close>

fun spaceRune :: "string \<Rightarrow> nat" where
  "spaceRune [] = 0"
| "spaceRune (c # cs) =
     (if c = SP \<or> (9 \<le> (of_char c :: nat) \<and> (of_char c :: nat) \<le> 13) then 1
      else if c = CHR 0xC2 then
        (case cs of
           d # _ \<Rightarrow> if d = CHR 0x85 \<or> d = CHR 0xA0 then 2 else 0
         | [] \<Rightarrow> 0)
      else if c = CHR 0xE1 then
        (case cs of
           d # e # _ \<Rightarrow> if d = CHR 0x9A \<and> e = CHR 0x80 then 3 else 0
         | _ \<Rightarrow> 0)
      else if c = CHR 0xE2 then
        (case cs of
           d # e # _ \<Rightarrow>
             if d = CHR 0x80 \<and>
                ((128 \<le> (of_char e :: nat) \<and> (of_char e :: nat) \<le> 138) \<or>
                 e = CHR 0xA8 \<or> e = CHR 0xA9 \<or> e = CHR 0xAF) then 3
             else if d = CHR 0x81 \<and> e = CHR 0x9F then 3
             else 0
         | _ \<Rightarrow> 0)
      else if c = CHR 0xE3 then
        (case cs of
           d # e # _ \<Rightarrow> if d = CHR 0x80 \<and> e = CHR 0x80 then 3 else 0
         | _ \<Rightarrow> 0)
      else 0)"

lemma spaceRune_le_length: "spaceRune s \<le> length s"
  by (cases s) (auto split: list.splits)

text \<open>
  \<open>leftSpace\<close>: the loop over the runes of \<open>s\<close> that stops at the first rune that is not a
  space and collects the encodings of the runes before it.
\<close>

function leftSpace :: "string \<Rightarrow> string" where
  "leftSpace s =
     (if spaceRune s = 0 then []
      else take (spaceRune s) s @ leftSpace (drop (spaceRune s) s))"
  by pat_completeness auto
termination
proof (relation "measure length")
  show "wf (measure length)" by simp
next
  fix s :: string
  assume "spaceRune s \<noteq> 0"
  with spaceRune_le_length[of s]
  show "(drop (spaceRune s) s, s) \<in> measure length" by simp
qed

declare leftSpace.simps [simp del]

record block =
  lines :: "string list"

definition newBlock :: "string \<Rightarrow> block" where
  "newBlock s = \<lparr>lines = Split s LF\<rparr>"

text \<open>
  \<open>trimSpace\<close>: every line is trimmed on the right; then the index \<open>i\<close> runs forward over
  the leading empty lines and \<open>j\<close> runs backward over the trailing ones without passing
  \<open>i\<close>, and the block keeps \<open>lines[i:j]\<close>.
\<close>

definition trimSpace :: "block \<Rightarrow> block" where
  "trimSpace t =
     (let ls = map (\<lambda>line. TrimRight line cutset) (lines t);
          i = length (takeWhile (\<lambda>l. l = []) ls);
          j = length ls - length (takeWhile (\<lambda>l. l = []) (rev (drop i ls)))
      in t\<lparr>lines := take (j - i) (drop i ls)\<rparr>)"

definition untabify :: "block \<Rightarrow> int \<Rightarrow> block" where
  "untabify t width =
     (let w = (if width \<le> 0 then 4 else width);
          spaces = Repeat [SP] (nat w)
      in t\<lparr>lines := map (\<lambda>line. Replace line TAB spaces) (lines t)\<rparr>)"

text \<open>
  The first loop of \<open>leftJust\<close>, one step per line: \<open>min\<close> starts as \<open>nil\<close> and is replaced
  by the leading space of a non-empty line when it is \<open>nil\<close> or strictly longer.
\<close>

definition minStep :: "string \<Rightarrow> string option \<Rightarrow> string option" where
  "minStep line mn =
     (let spc = leftSpace line in
      if line \<noteq> [] \<and> (case mn of None \<Rightarrow> True | Some m \<Rightarrow> length spc < length m)
      then Some spc else mn)"

definition leftJust :: "block \<Rightarrow> block" where
  "leftJust t =
     (case fold minStep (lines t) None of
        None \<Rightarrow> t
      | Some m \<Rightarrow> t\<lparr>lines := map (\<lambda>line. TrimPrefix line m) (lines t)\<rparr>)"

definition indent :: "block \<Rightarrow> string \<Rightarrow> block" where
  "indent t ind =
     t\<lparr>lines := map (\<lambda>(i, line).
            if line = [] \<and> i + 1 = length (lines t) then line
            else TrimRight (ind @ line) cutset)
          (enumerate 0 (lines t))\<rparr>"

definition prepend :: "block \<Rightarrow> string \<Rightarrow> block" where
  "prepend t s = t\<lparr>lines := s # lines t\<rparr>"

definition append_b :: "block \<Rightarrow> string list \<Rightarrow> block" where
  "append_b t ss = t\<lparr>lines := lines t @ ss\<rparr>"

definition block_String :: "block \<Rightarrow> string" where
  "block_String t = Join (lines t) [LF]"

text \<open>An \<open>Indenting\<close> is a function on blocks or \<open>nil\<close>.\<close>

type_synonym Indenting = "(block \<Rightarrow> block) option"

definition fix_in :: "Indenting \<Rightarrow> block \<Rightarrow> block" where
  "fix_in ind b = (case ind of None \<Rightarrow> b | Some f \<Rightarrow> f b)"

definition IPrefix :: "string \<Rightarrow> Indenting" where
  "IPrefix marker = Some (\<lambda>b. indent b marker)"

definition IComment :: "string \<Rightarrow> string \<Rightarrow> string \<Rightarrow> Indenting" where
  "IComment first rest lst = Some (\<lambda>b. append_b (prepend (indent b rest) first) [lst])"

text \<open>\<open>cleanup\<close> of licenses.go: the normalization of a template text.\<close>

definition cleanup :: "string \<Rightarrow> block" where
  "cleanup text = leftJust (untabify (trimSpace (newBlock text)) 0)"

text \<open>Normalization from text to text: the string form of the cleaned block.\<close>

definition normalize :: "string \<Rightarrow> string" where
  "normalize text = block_String (cleanup text)"

subsection \<open>Left-justification as the specification words it\<close>

text \<open>
  The specification's reading of left-justification, for comparison with \<open>leftJust\<close>:
  the longest string that is a prefix of the leading white space of every non-blank line
  is removed from every line; blank lines take no part in it and stay empty.
\<close>

definition commonLeftSpace :: "string list \<Rightarrow> string" where
  "commonLeftSpace ls =
     (case filter (\<lambda>l. l \<noteq> []) ls of
        [] \<Rightarrow> []
      | l # rest \<Rightarrow> fold (\<lambda>x p. longest_common_prefix p (leftSpace x)) rest (leftSpace l))"

definition leftJust_spec :: "string list \<Rightarrow> string list" where
  "leftJust_spec ls = map (\<lambda>l. drop (length (commonLeftSpace ls)) l) ls"


text \<open>Two properties of blocks used in the proofs below.\<close>

definition trimmed :: "string list \<Rightarrow> bool" where
  "trimmed ls \<longleftrightarrow> (ls = [] \<or> (hd ls \<noteq> [] \<and> last ls \<noteq> []))"

definition tidy :: "string \<Rightarrow> bool" where
  "tidy l \<longleftrightarrow> LF \<notin> set l \<and> TAB \<notin> set l \<and> (l = [] \<or> last l \<notin> set cutset)"

section \<open>Templates and license text (licenses.go)\<close>

text \<open>
  \<open>Config\<close> carries the values a template expands. The field \<open>Time\<close> is used only through
  \<open>c.Time.Format\<close>, which the function map binds to \<open>date\<close> and \<open>time\<close>; the time value is
  therefore represented by its \<open>Format\<close> method, from a layout to the formatted text.
\<close>

record Config =
  Author :: string
  Project :: string
  Time :: "string \<Rightarrow> string"

text \<open>The errors that \<open>WriteText\<close> and \<open>EditFile\<close> return.\<close>

datatype error = NoLicenseFound | ParseError | AbsError | SeekError | CreateError
  | WriteError | CopyError | SyncError | CloseError | RenameError

text \<open>
  Go's \<open>text/template\<close>, after its documentation and restricted to the actions that the
  templates of this repository contain: literal text, \<open>{{.Author}}\<close>, \<open>{{.Project}}\<close>,
  \<open>{{date "layout"}}\<close>, \<open>{{time "layout"}}\<close>, \<open>{{if .Field}}\<close> and \<open>{{end}}\<close>. Any other action,
  an action that is not closed, an \<open>{{end}}\<close> without its \<open>{{if}}\<close> and an \<open>{{if}}\<close> without
  its \<open>{{end}}\<close> make parsing fail. A string is empty exactly when \<open>{{if}}\<close> takes it as
  false.

  \<open>lex_tmpl\<close> cuts the text at the delimiters; the flag tells whether the scan is inside an
  action, and \<open>acc\<close> holds the bytes of the current piece in reverse.
\<close>

datatype token = Lit string | Act string

fun lex_tmpl :: "bool \<Rightarrow> string \<Rightarrow> string \<Rightarrow> token list option" where
  "lex_tmpl False acc [] = Some [Lit (rev acc)]"
| "lex_tmpl True acc [] = None"
| "lex_tmpl False acc (c # s) =
     (case s of
        d # s' \<Rightarrow>
          if c = CHR ''{'' \<and> d = CHR ''{''
          then map_option ((#) (Lit (rev acc))) (lex_tmpl True [] s')
          else lex_tmpl False (c # acc) s
      | [] \<Rightarrow> lex_tmpl False (c # acc) s)"
| "lex_tmpl True acc (c # s) =
     (case s of
        d # s' \<Rightarrow>
          if c = CHR ''}'' \<and> d = CHR ''}''
          then map_option ((#) (Act (rev acc))) (lex_tmpl False [] s')
          else lex_tmpl True (c # acc) s
      | [] \<Rightarrow> lex_tmpl True (c # acc) s)"

datatype field = FAuthor | FProject

datatype action = AText string | AField field | ACall string | AIf field | AEnd

definition trim_sp :: "string \<Rightarrow> string" where
  "trim_sp s = rev (dropWhile (\<lambda>c. c = SP) (rev (dropWhile (\<lambda>c. c = SP) s)))"

definition parse_field :: "string \<Rightarrow> field option" where
  "parse_field s = (if s = ''.Author'' then Some FAuthor
                    else if s = ''.Project'' then Some FProject else None)"

definition parse_quoted :: "string \<Rightarrow> string option" where
  "parse_quoted s =
     (case s of
        [] \<Rightarrow> None
      | q # r \<Rightarrow>
          if q = CHR 0x22 \<and> r \<noteq> [] \<and> last r = CHR 0x22 \<and> CHR 0x22 \<notin> set (butlast r)
             \<and> CHR 0x5C \<notin> set (butlast r)
          then Some (butlast r) else None)"

definition parse_action :: "string \<Rightarrow> action option" where
  "parse_action a =
     (let s = trim_sp a in
      if s = ''end'' then Some AEnd
      else if take 3 s = ''if '' then map_option AIf (parse_field (trim_sp (drop 3 s)))
      else if take 5 s = ''date '' \<or> take 5 s = ''time ''
        then map_option ACall (parse_quoted (trim_sp (drop 5 s)))
      else map_option AField (parse_field s))"

text \<open>\<open>parse_tokens\<close> checks that every \<open>{{if}}\<close> has its \<open>{{end}}\<close>; \<open>depth\<close> counts the open ones.\<close>

fun parse_tokens :: "token list \<Rightarrow> nat \<Rightarrow> action list option" where
  "parse_tokens [] depth = (if depth = 0 then Some [] else None)"
| "parse_tokens (Lit s # ts) depth = map_option ((#) (AText s)) (parse_tokens ts depth)"
| "parse_tokens (Act a # ts) depth =
     (case parse_action a of
        None \<Rightarrow> None
      | Some AEnd \<Rightarrow> (if depth = 0 then None
                      else map_option ((#) AEnd) (parse_tokens ts (depth - 1)))
      | Some (AIf f) \<Rightarrow> map_option ((#) (AIf f)) (parse_tokens ts (depth + 1))
      | Some x \<Rightarrow> map_option ((#) x) (parse_tokens ts depth))"

definition Parse :: "string \<Rightarrow> action list option" where
  "Parse text = (case lex_tmpl False [] text of None \<Rightarrow> None | Some ts \<Rightarrow> parse_tokens ts 0)"

definition field_value :: "Config \<Rightarrow> field \<Rightarrow> string" where
  "field_value c f = (case f of FAuthor \<Rightarrow> Author c | FProject \<Rightarrow> Project c)"

text \<open>
  \<open>Execute\<close> yields the bytes written. The stack holds the truth values of the enclosing
  \<open>{{if}}\<close> actions; a piece is written when all of them are true.
\<close>

fun Execute :: "Config \<Rightarrow> bool list \<Rightarrow> action list \<Rightarrow> string" where
  "Execute c st [] = []"
| "Execute c st (AText s # as) = (if list_all id st then s else []) @ Execute c st as"
| "Execute c st (AField f # as) = (if list_all id st then field_value c f else []) @ Execute c st as"
| "Execute c st (ACall l # as) = (if list_all id st then Time c l else []) @ Execute c st as"
| "Execute c st (AIf f # as) = Execute c ((field_value c f \<noteq> []) # st) as"
| "Execute c st (AEnd # as) = Execute c (tl st) as"

text \<open>
  \<open>Config.newTemplate\<close> parses the text and returns the function that executes the template
  into a writer; here it returns what that function writes.
\<close>

definition newTemplate :: "Config \<Rightarrow> string \<Rightarrow> error + string" where
  "newTemplate c text =
     (case Parse text of None \<Rightarrow> Inl ParseError | Some as \<Rightarrow> Inr (Execute c [] as))"

text \<open>
  \<open>WriteText\<close> takes a pointer that may be \<open>nil\<close>. Its result is the error, or the bytes
  written to \<open>w\<close>.
\<close>

definition WriteText :: "License option \<Rightarrow> Config \<Rightarrow> error + string" where
  "WriteText lic c =
     (case lic of
        None \<Rightarrow> Inl NoLicenseFound
      | Some l \<Rightarrow> newTemplate c (block_String (append_b (cleanup (Text l)) [[]])))"


section \<open>The registered licenses\<close>

text \<open>
  The template constants of the license packages, line by line as the Go raw string
  literals have them (\<open>Join\<close> puts the newlines back).
\<close>

definition PerFileNotice :: string where
  \<open>PerFileNotice =
    Join
      [[],
       ''Copyright (C) {{date "2006"}} {{.Author}}. All Rights Reserved.'',
       []]
      [LF]\<close>

definition disclaimer :: string where
  \<open>disclaimer =
    Join
      [[],
       ''THIS SOFTWARE IS PROVIDED BY THE AUTHOR "AS IS" AND ANY EXPRESS OR IMPLIED'',
       ''WARRANTIES, INCLUDING, BUT NOT LIMITED TO, THE IMPLIED WARRANTIES OF'',
       ''MERCHANTABILITY AND FITNESS FOR A PARTICULAR PURPOSE ARE DISCLAIMED. IN NO'',
       ''EVENT SHALL THE AUTHOR BE LIABLE FOR ANY DIRECT, INDIRECT, INCIDENTAL, SPECIAL,'',
       ''EXEMPLARY, OR CONSEQUENTIAL DAMAGES (INCLUDING, BUT NOT LIMITED TO, PROCUREMENT'',
       ''OF SUBSTITUTE GOODS OR SERVICES; LOSS OF USE, DATA, OR PROFITS; OR BUSINESS'',
       ''INTERRUPTION) HOWEVER CAUSED AND ON ANY THEORY OF LIABILITY, WHETHER IN'',
       ''CONTRACT, STRICT LIABILITY, OR TORT (INCLUDING NEGLIGENCE OR OTHERWISE) ARISING'',
       ''IN ANY WAY OUT OF THE USE OF THIS SOFTWARE, EVEN IF ADVISED OF THE POSSIBILITY'',
       ''OF SUCH DAMAGE.'',
       []]
      [LF]\<close>

definition freetext :: string where
  \<open>freetext =
    Join
      [[],
       ''Copyright {{date "2006"}}, {{.Author}}'',
       ''All Rights Reserved.'',
       [],
       ''Redistribution and use in source and binary forms, with or without'',
       ''modification, are permitted provided that the following conditions are met:'',
       [],
       ''1. Redistributions of source code must retain the above copyright notice, this'',
       ''   list of conditions and the following disclaimer.'',
       [],
       ''2. Redistributions in binary form must reproduce the above copyright notice,'',
       ''   this list of conditions and the following disclaimer in the documentation'',
       ''   and/or other materials provided with the distribution.'',
       []]
      [LF] @
    disclaimer @
    Join
      [''{{if .Project}}'',
       ''The views and conclusions contained in the software and documentation are those'',
       ''of the authors and should not be interpreted as representing official policies,'',
       ''either expressed or implied, of the {{.Project}} Project.'',
       ''{{end}}'']
      [LF]\<close>

definition bsd3text :: string where
  \<open>bsd3text =
    Join
      [[],
       ''BSD 3-Clause License'',
       [],
       ''Copyright (C) {{date "2006"}}, {{.Author}}'',
       ''All Rights Reserved.'',
       [],
       ''Redistribution and use in source and binary forms, with or without'',
       ''modification, are permitted provided that the following conditions are met:'',
       [],
       ''    (1) Redistributions of source code must retain the above copyright notice,'',
       ''    this list of conditions and the following disclaimer.'',
       [],
       ''    (2) Redistributions in binary form must reproduce the above copyright'',
       ''    notice, this list of conditions and the following disclaimer in the'',
       ''    documentation and/or other materials provided with the distribution.'',
       [],
       ''    (3) The name of the author may not be used to endorse or promote products'',
       ''    derived from this software without specific prior written permission.'',
       []]
      [LF] @
    disclaimer\<close>

definition freebsd :: License where
  "freebsd = \<lparr>Name = ''FreeBSD software license'', Slug = ''freebsd'',
     URL = ''https://www.freebsd.org/copyright/freebsd-license.html'',
     Text = freetext, PerFile = PerFileNotice\<rparr>"

definition bsd3c :: License where
  "bsd3c = \<lparr>Name = ''Modified BSD license (3-clause)'', Slug = ''bsd3c'',
     URL = ''https://directory.fsf.org/wiki/License:BSD-3-Clause'',
     Text = bsd3text, PerFile = PerFileNotice\<rparr>"


text \<open>A render context with an empty \<open>Project\<close>, as the command line always builds it.\<close>

definition cfg0 :: Config where
  "cfg0 = \<lparr>Author = ''A. U. Thor'', Project = [], Time = (\<lambda>layout. ''2018'')\<rparr>"


definition notice_only :: License where
  "notice_only = \<lparr>Name = [], Slug = ''x'', URL = [], Text = [], PerFile = PerFileNotice\<rparr>"

section \<open>File annotation (License.EditFile)\<close>

text \<open>
  The file system is a map from resolved path to content. \<open>offset\<close> is the read position
  of the open file \<open>f\<close> that \<open>EditFile\<close> is given, and \<open>oplog\<close> records every file
  operation attempted, in order, with whether it succeeded. File names are taken as
  resolved paths, so that \<open>f.Name()\<close> and \<open>filepath.Abs(f.Name())\<close> name the same entry.
\<close>

datatype fsop =
    OpSeek string bool
  | OpCreateTemp string bool
  | OpWrite string bool
  | OpCopy string string bool
  | OpSync string bool
  | OpClose string bool
  | OpRename string string bool
  | OpRemove string

record world =
  files :: "string \<rightharpoonup> string"
  offset :: nat
  oplog :: "fsop list"

text \<open>
  What the environment does to each operation of one call: whether it fails, after how
  many bytes a write or a copy fails, and the random part of the temporary name.
\<close>

record faults =
  abs_fails :: bool
  seek_fails :: bool
  create_fails :: bool
  temp_random :: string
  write_fails :: "nat option"
  copy_fails :: "nat option"
  sync_fails :: bool
  close_fails :: bool
  rename_fails :: bool

definition logop :: "fsop \<Rightarrow> world \<Rightarrow> world" where
  "logop e w = w\<lparr>oplog := oplog w @ [e]\<rparr>"

text \<open>The operations between two states of the world.\<close>

definition new_ops :: "world \<Rightarrow> world \<Rightarrow> fsop list" where
  "new_ops w w' = drop (length (oplog w)) (oplog w')"

text \<open>\<open>f.Seek(0, io.SeekStart)\<close>.\<close>

definition file_Seek0 :: "string \<Rightarrow> faults \<Rightarrow> world \<Rightarrow> error option \<times> world" where
  "file_Seek0 f env w =
     (if seek_fails env then (Some SeekError, logop (OpSeek f False) w)
      else (None, logop (OpSeek f True) (w\<lparr>offset := 0\<rparr>)))"

text \<open>
  \<open>os.CreateTemp(filepath.Dir(abs), filepath.Base(abs)+"~*")\<close> creates a new, empty file
  next to \<open>abs\<close>, named \<open>abs\<close>, a tilde and a random string; it never opens a file that
  exists already.
\<close>

definition os_CreateTemp :: "string \<Rightarrow> faults \<Rightarrow> world \<Rightarrow> (error + string) \<times> world" where
  "os_CreateTemp apath env w =
     (let tmp = apath @ ''~'' @ temp_random env in
      if create_fails env \<or> files w tmp \<noteq> None
      then (Inl CreateError, logop (OpCreateTemp tmp False) w)
      else (Inr tmp, logop (OpCreateTemp tmp True) (w\<lparr>files := (files w)(tmp \<mapsto> [])\<rparr>)))"

definition content :: "world \<Rightarrow> string \<Rightarrow> string" where
  "content w p = (case files w p of None \<Rightarrow> [] | Some d \<Rightarrow> d)"

text \<open>
  \<open>write(tmp)\<close> executes the template into the temporary file; a failure (of the template
  or of the file) leaves the bytes written before it.
\<close>

definition write_tmp :: "string \<Rightarrow> string \<Rightarrow> faults \<Rightarrow> world \<Rightarrow> error option \<times> world" where
  "write_tmp tmp header env w =
     (case write_fails env of
        Some k \<Rightarrow> (Some WriteError,
           logop (OpWrite tmp False) (w\<lparr>files := (files w)(tmp \<mapsto> content w tmp @ take k header)\<rparr>))
      | None \<Rightarrow> (None,
           logop (OpWrite tmp True) (w\<lparr>files := (files w)(tmp \<mapsto> content w tmp @ header)\<rparr>)))"

text \<open>\<open>io.Copy(tmp, f)\<close> appends what \<open>f\<close> holds from its offset on.\<close>

definition io_Copy :: "string \<Rightarrow> string \<Rightarrow> faults \<Rightarrow> world \<Rightarrow> error option \<times> world" where
  "io_Copy tmp f env w =
     (let rest = drop (offset w) (content w f) in
      case copy_fails env of
        Some k \<Rightarrow> (Some CopyError,
           logop (OpCopy f tmp False)
             (w\<lparr>files := (files w)(tmp \<mapsto> content w tmp @ take k rest),
                offset := offset w + min k (length rest)\<rparr>))
      | None \<Rightarrow> (None,
           logop (OpCopy f tmp True)
             (w\<lparr>files := (files w)(tmp \<mapsto> content w tmp @ rest),
                offset := offset w + length rest\<rparr>)))"

definition file_Sync :: "string \<Rightarrow> faults \<Rightarrow> world \<Rightarrow> error option \<times> world" where
  "file_Sync tmp env w =
     (if sync_fails env then (Some SyncError, logop (OpSync tmp False) w)
      else (None, logop (OpSync tmp True) w))"

definition file_Close :: "string \<Rightarrow> faults \<Rightarrow> world \<Rightarrow> error option \<times> world" where
  "file_Close tmp env w =
     (if close_fails env then (Some CloseError, logop (OpClose tmp False) w)
      else (None, logop (OpClose tmp True) w))"

text \<open>\<open>os.Rename\<close> replaces the new path by the old file in one step.\<close>

definition os_Rename :: "string \<Rightarrow> string \<Rightarrow> faults \<Rightarrow> world \<Rightarrow> error option \<times> world" where
  "os_Rename old new env w =
     (if rename_fails env \<or> files w old = None
      then (Some RenameError, logop (OpRename old new False) w)
      else (None, logop (OpRename old new True)
              (w\<lparr>files := (files w)(new := files w old, old := None)\<rparr>)))"

text \<open>
  \<open>os.Remove\<close>, whose result the deferred call discards: the name is gone afterwards,
  whether or not it was there.
\<close>

definition os_Remove :: "string \<Rightarrow> world \<Rightarrow> world" where
  "os_Remove name w = logop (OpRemove name) (w\<lparr>files := (files w)(name := None)\<rparr>)"

text \<open>
  The nested \<open>if err == nil\<close> of \<open>EditFile\<close>: write the header, then copy, then sync, each
  only when the step before it succeeded.
\<close>

definition fill_tmp :: "string \<Rightarrow> string \<Rightarrow> string \<Rightarrow> faults \<Rightarrow> world \<Rightarrow> error option \<times> world" where
  "fill_tmp tmp f header env w =
     (case write_tmp tmp header env w of
        (Some e, w1) \<Rightarrow> (Some e, w1)
      | (None, w1) \<Rightarrow>
          (case io_Copy tmp f env w1 of
             (Some e, w2) \<Rightarrow> (Some e, w2)
           | (None, w2) \<Rightarrow> file_Sync tmp env w2))"

text \<open>
  \<open>EditFile\<close>. After \<open>os.CreateTemp\<close> succeeds, the deferred \<open>os.Remove(tmp.Name())\<close> runs
  at every return.
\<close>

definition EditFile ::
  "License option \<Rightarrow> string \<Rightarrow> Config \<Rightarrow> Indenting \<Rightarrow> faults \<Rightarrow> world
     \<Rightarrow> error option \<times> world" where
  "EditFile lic f c ind env w =
     (case lic of
        None \<Rightarrow> (None, w)
      | Some l \<Rightarrow>
          if PerFile l = [] then (None, w)
          else if abs_fails env then (Some AbsError, w)
          else
            (case file_Seek0 f env w of
               (Some e, w1) \<Rightarrow> (Some e, w1)
             | (None, w1) \<Rightarrow>
                 (case newTemplate c
                         (block_String (append_b (fix_in ind (cleanup (PerFile l))) [[LF]])) of
                    Inl e \<Rightarrow> (Some e, w1)
                  | Inr header \<Rightarrow>
                      (case os_CreateTemp f env w1 of
                         (Inl e, w2) \<Rightarrow> (Some e, w2)
                       | (Inr tmp, w2) \<Rightarrow>
                           (case fill_tmp tmp f header env w2 of (err, w3) \<Rightarrow>
                            case file_Close tmp env w3 of (cerr, w4) \<Rightarrow>
                              if err \<noteq> None then (err, os_Remove tmp w4)
                              else if cerr \<noteq> None then (cerr, os_Remove tmp w4)
                              else (case os_Rename tmp f env w4 of (rerr, w5) \<Rightarrow>
                                      (rerr, os_Remove tmp w5)))))))"


section \<open>Choosing the indenting rule (main.go)\<close>

text \<open>
  \<open>filepath.Ext\<close>, after its documentation: the suffix beginning at the final dot in the
  final element of the path, empty if there is no dot. The scan runs from the end of the
  path.
\<close>

fun ext_scan :: "string \<Rightarrow> string \<Rightarrow> string" where
  "ext_scan [] acc = []"
| "ext_scan (c # cs) acc =
     (if c = CHR ''/'' then []
      else if c = CHR ''.'' then c # acc
      else ext_scan cs (c # acc))"

definition Ext :: "string \<Rightarrow> string" where
  "Ext path = ext_scan (rev path) []"

text \<open>The table \<open>indent\<close> of package main, from style name to rule.\<close>

definition indent_map :: "string \<rightharpoonup> Indenting" where
  "indent_map =
     [''hash'' \<mapsto> IPrefix ''# '',
      ''slash'' \<mapsto> IPrefix ''// '',
      ''star'' \<mapsto> IComment ''/*'' ''   '' '' */'',
      ''sstar'' \<mapsto> IComment ''/*'' '' * '' '' */'',
      ''xml'' \<mapsto> IComment ''<!--'' ''   '' ''  -->'']"

text \<open>Indexing a Go map yields the zero value, here \<open>nil\<close>, for a missing key.\<close>

definition map_index :: "(string \<rightharpoonup> Indenting) \<Rightarrow> string \<Rightarrow> Indenting" where
  "map_index m k = (case m k of None \<Rightarrow> None | Some v \<Rightarrow> v)"

text \<open>\<open>chooseIndent\<close>; \<open>style\<close> is the value of the flag, \<open>indentStyle.Key()\<close>.\<close>

definition chooseIndent :: "string \<Rightarrow> string \<Rightarrow> Indenting" where
  "chooseIndent style path =
     (case indent_map style of
        Some ind \<Rightarrow> ind
      | None \<Rightarrow>
          if style \<noteq> ''guess'' then None
          else (let ext = Ext path in
            if ext \<in> {[], ''.sh'', ''.py'', ''.pl'', ''.rb''} then map_index indent_map ''hash''
            else if ext \<in> {''.cc'', ''.cpp'', ''.go'', ''.java'', ''.js''}
              then map_index indent_map ''slash''
            else if ext \<in> {''.c'', ''.h''} then map_index indent_map ''star''
            else if ext \<in> {''.htm'', ''.html'', ''.xhtml''} then map_index indent_map ''xml''
            else None))"


section \<open>Sample inputs\<close>

text \<open>
  A directory with one Go file that has been read up to offset 3, an environment in
  which every operation succeeds, and one in which the copy fails after four bytes.
\<close>

definition w0 :: world where
  "w0 = \<lparr>files = [''/p/a.go'' \<mapsto> ''package a''], offset = 3, oplog = []\<rparr>"

definition env_ok :: faults where
  "env_ok = \<lparr>abs_fails = False, seek_fails = False, create_fails = False, temp_random = ''1'',
     write_fails = None, copy_fails = None, sync_fails = False, close_fails = False,
     rename_fails = False\<rparr>"

definition env_copy :: faults where
  "env_copy = env_ok\<lparr>copy_fails := Some 4\<rparr>"

section \<open>Properties of the registry\<close>

lemma sdiv2_nonneg: "0 \<le> a \<Longrightarrow> (a::int) sdiv 2 = a div 2"
  by (simp add: signed_divide_int_def sgn_if)

lemma lookup_loop_stuck_aux:
  assumes major: "lookup_loop ks0 slug0 i0 j0 = Some y0"
  shows "\<not> (i0 = j0 \<and> 0 \<le> i0 \<and> i0 < int (length ks0) \<and> slug0 < Slug (ks0 ! nat i0))"
proof (rule lookup_loop.raw_induct[where P = "\<lambda>ks slug i j y.
     \<not> (i = j \<and> 0 \<le> i \<and> i < int (length ks) \<and> slug < Slug (ks ! nat i))", OF _ major],
    goal_cases)
  case (1 f ks slug i j y)
  note IH = "1"(1) and hyps = "1"(2)
  show ?case
  proof
    assume a: "i = j \<and> 0 \<le> i \<and> i < int (length ks) \<and> slug < Slug (ks ! nat i)"
    then have e: "j = i" and i0: "0 \<le> i" and rng: "i < int (length ks)"
      and lt: "slug < Slug (ks ! nat i)" by blast+
    have m: "(i + i) sdiv 2 = i" using i0 by (simp add: sdiv2_nonneg)
    from lt have ne: "slug \<noteq> Slug (ks ! nat i)" by auto
    have "f ks slug i i = Some y"
      using hyps unfolding e m Let_def using i0 rng lt ne by simp
    from IH[OF this] i0 rng lt show False by simp
  qed
qed

lemma lookup_loop_stuck:
  "0 \<le> i \<Longrightarrow> i < int (length ks) \<Longrightarrow> slug < Slug (ks ! nat i) \<Longrightarrow>
     lookup_loop ks slug i i = None"
  using lookup_loop_stuck_aux[of ks slug i i] by (cases "lookup_loop ks slug i i") auto

lemma lookup_loop_not_found_aux:
  assumes major: "lookup_loop ks0 slug0 i0 j0 = Some y0"
  shows "\<forall>p. y0 = Inr (p, False) \<longrightarrow> 0 \<le> i0 \<longrightarrow> i0 \<le> j0 + 1 \<longrightarrow>
        p = j0 + 1 \<and> (i0 \<le> j0 \<longrightarrow> Slug (ks0 ! nat j0) < slug0)"
proof (rule lookup_loop.raw_induct[where P = "\<lambda>ks slug i j y.
     \<forall>p. y = Inr (p, False) \<longrightarrow> 0 \<le> i \<longrightarrow> i \<le> j + 1 \<longrightarrow>
        p = j + 1 \<and> (i \<le> j \<longrightarrow> Slug (ks ! nat j) < slug)", OF _ major], goal_cases)
  case (1 f ks slug i j y)
  note IH = "1"(1) and hyps = "1"(2)
  show ?case
  proof (intro allI impI)
    fix p assume y: "y = Inr (p, False)" and i0: "0 \<le> i" and ij: "i \<le> j + 1"
    show "p = j + 1 \<and> (i \<le> j \<longrightarrow> Slug (ks ! nat j) < slug)"
    proof (cases "i \<le> j")
      case False
      with hyps y ij show ?thesis by simp
    next
      case True
      define m where "m = (i + j) div 2"
      have m: "(i + j) sdiv 2 = m" using i0 True by (simp add: sdiv2_nonneg m_def)
      have mb: "i \<le> m" "m \<le> j" using True by (simp_all add: m_def)
      from hyps True m y
      have rng: "\<not> (m < 0 \<or> int (length ks) \<le> m)" and ne: "slug \<noteq> Slug (ks ! nat m)"
        by (auto simp: Let_def split: if_splits)
      show ?thesis
      proof (cases "slug < Slug (ks ! nat m)")
        case lt: True
        from hyps True m rng ne lt have "f ks slug i m = Some y"
          by (simp add: Let_def)
        from IH[OF this] y i0 mb have "Slug (ks ! nat m) < slug" by simp
        with lt show ?thesis by simp
      next
        case ge: False
        from hyps True m rng ne ge have "f ks slug (m + 1) j = Some y"
          by (simp add: Let_def)
        from IH[OF this] y i0 mb
        have r: "p = j + 1" "m + 1 \<le> j \<longrightarrow> Slug (ks ! nat j) < slug" by simp_all
        have "Slug (ks ! nat j) < slug"
        proof (cases "m + 1 \<le> j")
          case True with r show ?thesis by simp
        next
          case False
          with mb have "m = j" by simp
          with ne ge show ?thesis by auto
        qed
        with r show ?thesis by simp
      qed
    qed
  qed
qed

lemma lookup_not_found:
  assumes "lookup r slug = Some (Inr (p, False))"
  shows "p = int (length (known r))"
    and "known r \<noteq> [] \<Longrightarrow> Slug (last (known r)) < slug"
proof -
  from assms have l: "lookup_loop (known r) slug 0 (int (length (known r)) - 1) = Some (Inr (p, False))"
    by (simp add: lookup_def)
  from lookup_loop_not_found_aux[OF l] show "p = int (length (known r))" by simp
  assume ne: "known r \<noteq> []"
  then have "0 \<le> int (length (known r)) - 1" by (cases "known r") simp_all
  with lookup_loop_not_found_aux[OF l] have "Slug (known r ! nat (int (length (known r)) - 1)) < slug"
    by simp
  moreover have "nat (int (length (known r)) - 1) = length (known r) - 1" by simp
  ultimately show "Slug (last (known r)) < slug" using ne by (simp add: last_conv_nth)
qed

lemma insert_r_appends:
  assumes "insert_r r lic = Some (Inr (True, r'))"
  shows "known r' = known r @ [lic]"
    and "known r \<noteq> [] \<Longrightarrow> Slug (last (known r)) < Slug lic"
proof -
  from assms obtain p where l: "lookup r (Slug lic) = Some (Inr (p, False))"
    and r': "r' = r\<lparr>known := take (nat p) (known r) @ [lic] @ drop (nat p) ((known r)[nat p := lic])\<rparr>"
    by (auto simp: insert_r_def split: option.splits sum.splits if_splits)
  from lookup_not_found(1)[OF l] r' show "known r' = known r @ [lic]" by simp
  assume "known r \<noteq> []"
  from lookup_not_found(2)[OF l this] show "Slug (last (known r)) < Slug lic" .
qed

lemma sorted_le_last:
  "sorted_wrt (<) (xs :: string list) \<Longrightarrow> y \<in> set xs \<Longrightarrow> y \<le> last xs"
proof (induction xs)
  case Nil then show ?case by simp
next
  case (Cons a xs)
  show ?case
  proof (cases "xs = []")
    case True with Cons.prems show ?thesis by simp
  next
    case False
    then have l: "last (a # xs) = last xs" and m: "last xs \<in> set xs" by simp_all
    from Cons.prems(1) have s: "sorted_wrt (<) xs" and a: "\<forall>z\<in>set xs. a < z" by simp_all
    show ?thesis
    proof (cases "y = a")
      case True with a m l show ?thesis by (simp add: less_imp_le)
    next
      case False
      with Cons.prems(2) have "y \<in> set xs" by simp
      from Cons.IH[OF s this] l show ?thesis by simp
    qed
  qed
qed

lemma sorted_snoc_last:
  assumes "sorted_wrt (<) (xs :: string list)" and "xs \<noteq> [] \<longrightarrow> last xs < x"
  shows "sorted_wrt (<) (xs @ [x])"
proof -
  have "y < x" if "y \<in> set xs" for y
  proof -
    from that have "xs \<noteq> []" by auto
    with assms(2) have "last xs < x" by simp
    with sorted_le_last[OF assms(1) that] show ?thesis by (rule le_less_trans)
  qed
  with assms(1) show ?thesis by (simp add: sorted_wrt_append)
qed

lemma Register_returns_sorted:
  assumes "Register lic g = Some (None, g')" and "sorted_wrt (<) (map Slug (known g))"
  shows "known g' = known g @ [lic] \<and> sorted_wrt (<) (map Slug (known g')) \<and> Slug lic \<noteq> []"
proof -
  from assms(1) have ne: "Slug lic \<noteq> []" and ins: "insert_r g lic = Some (Inr (True, g'))"
    by (auto simp: Register_def split: if_splits option.splits sum.splits)
  from insert_r_appends[OF ins] have k: "known g' = known g @ [lic]"
    and lt: "known g \<noteq> [] \<Longrightarrow> Slug (last (known g)) < Slug lic" by auto
  have "sorted_wrt (<) (map Slug (known g) @ [Slug lic])"
    using assms(2) lt by (intro sorted_snoc_last) (simp_all add: last_map)
  with k ne show ?thesis by simp
qed

lemma Register_all_returns_sorted:
  "Register_all lics g = Some (None, g') \<Longrightarrow> sorted_wrt (<) (map Slug (known g)) \<Longrightarrow>
     known g' = known g @ lics \<and> sorted_wrt (<) (map Slug (known g'))"
proof (induction lics arbitrary: g)
  case Nil then show ?case by simp
next
  case (Cons lic lics)
  from Cons.prems(1) obtain g1 where r1: "Register lic g = Some (None, g1)"
    and r2: "Register_all lics g1 = Some (None, g')"
    by (auto split: option.splits prod.splits)
  from Register_returns_sorted[OF r1 Cons.prems(2)]
  have "known g1 = known g @ [lic]" "sorted_wrt (<) (map Slug (known g1))" by blast+
  with Cons.IH[OF r2] show ?case by auto
qed


lemma lookup_loop_exit: "j < i \<Longrightarrow> lookup_loop ks slug i j = Some (Inr (i, False))"
  by (subst lookup_loop.simps) simp

lemma Register_first:
  "Register (slug_only ''b'') new_registry = Some (None, \<lparr>known = [slug_only ''b'']\<rparr>)"
  by (simp add: new_registry_def Register_def insert_r_def lookup_def slug_only_def
      lookup_loop_exit)

lemma Register_second:
  "Register (slug_only ''a'') \<lparr>known = [slug_only ''b'']\<rparr> = None"
  by (simp add: Register_def insert_r_def lookup_def slug_only_def lookup_loop_stuck)

text \<open>
  C4. \<open>Lookup\<close> is documented to return \<open>nil\<close> for a slug that is not registered. With the
  single entry \<open>b\<close> registered, \<open>Lookup("a")\<close> never returns: the loop of
  \<open>registry.lookup\<close> sets \<open>j = m\<close> with \<open>i = j = m = 0\<close> and repeats in the same state.
\<close>

theorem Lookup_unregistered_diverges:
  "Lookup \<lparr>known = [slug_only ''b'']\<rparr> ''a'' = None"
  by (simp add: Lookup_def fetch_def lookup_def slug_only_def lookup_loop_stuck)

text \<open>
  C9. Registering the distinct, non-empty slugs \<open>b\<close> and then \<open>a\<close> in an empty registry
  does not produce a sorted registry: the first call returns, the second call never does
  (the search for \<open>a\<close> in \<open>[b]\<close> does not exit). Calls that do return always append
  (\<open>Register_all_returns_sorted\<close>), so only increasing sequences of slugs complete.
\<close>

theorem Register_out_of_order_diverges:
  "Register_all [slug_only ''b'', slug_only ''a''] new_registry = None"
  by (simp add: Register_first Register_second)

lemma Register_empty_slug_origin:
  assumes r: "Register lic g = Some (p, g')" and l: "l \<in> set (known g')" and e: "Slug l = []"
  shows "l \<in> set (known g)"
proof (cases "Slug lic = []")
  case True
  with r have "g' = g" by (simp add: Register_def)
  with l show ?thesis by simp
next
  case False
  show ?thesis
  proof (cases "insert_r g lic")
    case None
    with r False show ?thesis by (simp add: Register_def)
  next
    case (Some res)
    show ?thesis
    proof (cases res)
      case (Inl q)
      with r False Some have "g' = g" by (simp add: Register_def)
      with l show ?thesis by simp
    next
      case (Inr okg)
      obtain ok g1 where okg: "okg = (ok, g1)" by (cases okg)
      show ?thesis
      proof (cases ok)
        case True
        with r False Some Inr okg have g1: "g1 = g'" by (simp add: Register_def)
        from Some Inr okg True g1 have "insert_r g lic = Some (Inr (True, g'))" by simp
        from insert_r_appends(1)[OF this] l e False show ?thesis by auto
      next
        case nok: False
        with Some Inr okg have "g1 = g"
          by (auto simp: insert_r_def split: option.splits sum.splits if_splits)
        with r False Some Inr okg nok have "g' = g" by (simp add: Register_def)
        with l show ?thesis by simp
      qed
    qed
  qed
qed

text \<open>
  C10. \<open>Register\<close> called with an empty slug panics and leaves the registry as it was;
  and no call of \<open>Register\<close>, whatever its outcome, brings an empty slug into a registry
  that had none.
\<close>

theorem Register_empty_slug_panics:
  "(Slug lic = [] \<longrightarrow> Register lic g = Some (Some EmptySlug, g)) \<and>
   (\<forall>p g'. Register lic g = Some (p, g') \<and> [] \<notin> Slug ` set (known g)
      \<longrightarrow> [] \<notin> Slug ` set (known g'))"
proof (intro conjI impI allI)
  assume "Slug lic = []"
  then show "Register lic g = Some (Some EmptySlug, g)" by (simp add: Register_def)
next
  fix p g'
  assume a: "Register lic g = Some (p, g') \<and> [] \<notin> Slug ` set (known g)"
  show "[] \<notin> Slug ` set (known g')"
  proof
    assume "[] \<in> Slug ` set (known g')"
    then obtain l where "l \<in> set (known g')" "Slug l = []" by auto
    with Register_empty_slug_origin[of lic g p g' l] a have "l \<in> set (known g)" by simp
    with \<open>Slug l = []\<close> a show False by force
  qed
qed

theorem Register_empty_slug_panics_witness:
  "Slug (slug_only []) = [] \<and>
   Register (slug_only []) \<lparr>known = [slug_only ''b'']\<rparr>
     = Some (Some EmptySlug, \<lparr>known = [slug_only ''b'']\<rparr>) \<and>
   [] \<notin> Slug ` set (known \<lparr>known = [slug_only ''b'']\<rparr>)"
  using Register_empty_slug_panics [of "slug_only []" "\<lparr>known = [slug_only ''b'']\<rparr>"]
  by (simp add: slug_only_def)


section \<open>Properties of text blocks\<close>

subsection \<open>The string functions\<close>

lemma Split_not_Nil: "Split s sep \<noteq> []"
  by (induction s) auto

lemma Split_code [code]:
  "Split [] sep = [[]]"
  "Split (c # cs) sep =
     (case Split cs sep of
        [] \<Rightarrow> [[c]]
      | l # ls \<Rightarrow> if c = sep then [] # l # ls else (c # l) # ls)"
  using Split_not_Nil[of cs sep] by (auto split: list.splits)

lemma Split_no_sep: "l \<in> set (Split s sep) \<Longrightarrow> sep \<notin> set l"
proof (induction s arbitrary: l)
  case Nil then show ?case by simp
next
  case (Cons c cs)
  show ?case
  proof (cases "c = sep")
    case True with Cons show ?thesis by auto
  next
    case False
    obtain h t where ht: "Split cs sep = h # t" using Split_not_Nil[of cs sep] by (cases "Split cs sep") auto
    with Cons False show ?thesis by auto
  qed
qed

lemma Split_no_sep_id: "sep \<notin> set l \<Longrightarrow> Split l sep = [l]"
  by (induction l) auto

lemma Split_append_sep:
  "sep \<notin> set l \<Longrightarrow> Split (l @ sep # r) sep = l # Split r sep"
  by (induction l) auto

lemma Split_Join:
  "ls \<noteq> [] \<Longrightarrow> \<forall>l\<in>set ls. sep \<notin> set l \<Longrightarrow> Split (Join ls [sep]) sep = ls"
proof (induction ls "[sep]" rule: Join.induct)
  case 1 then show ?case by simp
next
  case (2 l) then show ?case by (simp add: Split_no_sep_id)
next
  case (3 l v va)
  then show ?case by (simp add: Split_append_sep)
qed

lemma TrimRight_set: "set (TrimRight s cs) \<subseteq> set s"
  using set_dropWhileD[of _ "\<lambda>c. c \<in> set cs" "rev s"] by (auto simp: TrimRight_def)

lemma TrimRight_last: "TrimRight s cs \<noteq> [] \<Longrightarrow> last (TrimRight s cs) \<notin> set cs"
proof -
  assume ne: "TrimRight s cs \<noteq> []"
  then have d: "dropWhile (\<lambda>c. c \<in> set cs) (rev s) \<noteq> []" by (simp add: TrimRight_def)
  then have "\<not> (hd (dropWhile (\<lambda>c. c \<in> set cs) (rev s)) \<in> set cs)" by (rule hd_dropWhile)
  with d show ?thesis by (simp add: TrimRight_def last_rev)
qed

lemma TrimRight_id: "s = [] \<or> last s \<notin> set cs \<Longrightarrow> TrimRight s cs = s"
proof (cases "s = []")
  case True then show ?thesis by (simp add: TrimRight_def)
next
  case False
  assume "s = [] \<or> last s \<notin> set cs"
  with False have "hd (rev s) \<notin> set cs" by (simp add: hd_rev)
  moreover from False have "rev s \<noteq> []" by simp
  ultimately have "dropWhile (\<lambda>c. c \<in> set cs) (rev s) = rev s"
    by (cases "rev s") auto
  then show ?thesis by (simp add: TrimRight_def)
qed

lemma Replace_Nil_iff: "new \<noteq> [] \<Longrightarrow> Replace s old new = [] \<longleftrightarrow> s = []"
  by (cases s) (auto simp: Replace_def)

lemma Replace_id: "old \<notin> set s \<Longrightarrow> Replace s old new = s"
  by (induction s) (auto simp: Replace_def)

lemma Replace_set: "set (Replace s old new) \<subseteq> (set s - {old}) \<union> set new"
  by (induction s) (auto simp: Replace_def)

lemma Replace_append: "Replace (a @ b) old new = Replace a old new @ Replace b old new"
  by (simp add: Replace_def)

lemma Replace_snoc:
  "s \<noteq> [] \<Longrightarrow> last s \<noteq> old \<Longrightarrow> Replace s old new = Replace (butlast s) old new @ [last s]"
proof -
  assume a: "s \<noteq> []" "last s \<noteq> old"
  then have "Replace (butlast s @ [last s]) old new = Replace (butlast s) old new @ [last s]"
    unfolding Replace_append by (simp add: Replace_def)
  with a(1) show ?thesis by simp
qed

lemma Replace_last: "s \<noteq> [] \<Longrightarrow> last s \<noteq> old \<Longrightarrow> last (Replace s old new) = last s"
  by (simp add: Replace_snoc)

subsection \<open>Leading white space\<close>

lemma spaceRune_Nil [simp]: "spaceRune [] = 0" by simp

lemma leftSpace_prefix: "prefix (leftSpace s) s"
proof (induction s rule: leftSpace.induct)
  case (1 s)
  show ?case
  proof (cases "spaceRune s = 0")
    case True then show ?thesis by (subst leftSpace.simps) simp
  next
    case False
    from "1.IH"[OF False] obtain r where r: "drop (spaceRune s) s = leftSpace (drop (spaceRune s) s) @ r"
      by (auto simp: prefix_def)
    have "s = take (spaceRune s) s @ drop (spaceRune s) s" by simp
    with r have "s = (take (spaceRune s) s @ leftSpace (drop (spaceRune s) s)) @ r" by simp
    moreover have "leftSpace s = take (spaceRune s) s @ leftSpace (drop (spaceRune s) s)"
      using False by (subst leftSpace.simps) simp
    ultimately show ?thesis unfolding prefix_def by metis
  qed
qed

lemma leftSpace_Nil_iff: "leftSpace s = [] \<longleftrightarrow> spaceRune s = 0"
proof
  assume l: "leftSpace s = []"
  show "spaceRune s = 0"
  proof (rule ccontr)
    assume n: "spaceRune s \<noteq> 0"
    then have "s \<noteq> []" by auto
    with n have "take (spaceRune s) s \<noteq> []" by simp
    moreover have "leftSpace s = take (spaceRune s) s @ leftSpace (drop (spaceRune s) s)"
      using n by (subst leftSpace.simps) simp
    ultimately show False using l by simp
  qed
next
  assume "spaceRune s = 0" then show "leftSpace s = []" by (subst leftSpace.simps) simp
qed

lemma leftSpace_rest: "leftSpace (drop (length (leftSpace s)) s) = []"
proof (induction s rule: leftSpace.induct)
  case (1 s)
  show ?case
  proof (cases "spaceRune s = 0")
    case True
    then have "leftSpace s = []" by (simp add: leftSpace_Nil_iff)
    then show ?thesis by simp
  next
    case False
    have e: "leftSpace s = take (spaceRune s) s @ leftSpace (drop (spaceRune s) s)"
      using False by (subst leftSpace.simps) simp
    have "length (take (spaceRune s) s) = spaceRune s"
      using spaceRune_le_length[of s] by simp
    then have "length (leftSpace s) = spaceRune s + length (leftSpace (drop (spaceRune s) s))"
      by (subst e) simp
    then have "drop (length (leftSpace s)) s
        = drop (length (leftSpace (drop (spaceRune s) s))) (drop (spaceRune s) s)"
      by (simp add: add.commute)
    with "1.IH"[OF False] show ?thesis by simp
  qed
qed

subsection \<open>Trimming\<close>

lemma take_length_minus_takeWhile_rev:
  "take (length xs - length (takeWhile P (rev xs))) xs = rev (dropWhile P (rev xs))"
proof -
  have "rev (dropWhile P (rev xs)) = rev (drop (length (takeWhile P (rev xs))) (rev xs))"
    by (simp add: dropWhile_eq_drop)
  also have "\<dots> = take (length xs - length (takeWhile P (rev xs))) xs"
    by (simp add: rev_drop)
  finally show ?thesis by simp
qed

lemma trimSpace_lines:
  "lines (trimSpace t) =
     rev (dropWhile (\<lambda>l. l = []) (rev (dropWhile (\<lambda>l. l = [])
       (map (\<lambda>line. TrimRight line cutset) (lines t)))))"
proof -
  define ls where "ls = map (\<lambda>line. TrimRight line cutset) (lines t)"
  define xs where "xs = dropWhile (\<lambda>l. l = []) ls"
  define i where "i = length (takeWhile (\<lambda>l. l = []) ls)"
  have xs: "drop i ls = xs" by (simp add: i_def xs_def dropWhile_eq_drop)
  have len: "length xs = length ls - i" using xs by (metis length_drop)
  have "length ls - length (takeWhile (\<lambda>l. l = []) (rev xs)) - i
        = length xs - length (takeWhile (\<lambda>l. l = []) (rev xs))"
    using len by simp
  then have "lines (trimSpace t) = take (length xs - length (takeWhile (\<lambda>l. l = []) (rev xs))) xs"
    by (simp add: trimSpace_def Let_def ls_def[symmetric] i_def[symmetric] xs)
  then show ?thesis
    by (simp add: take_length_minus_takeWhile_rev xs_def ls_def)
qed

lemma trimmed_strip:
  "trimmed (rev (dropWhile (\<lambda>l. l = []) (rev (dropWhile (\<lambda>l. l = []) ls))))"
proof -
  define xs where "xs = dropWhile (\<lambda>l. l = []) ls"
  define ys where "ys = dropWhile (\<lambda>l. l = []) (rev xs)"
  have "trimmed (rev ys)"
  proof (cases "ys = []")
    case True then show ?thesis by (simp add: trimmed_def)
  next
    case False
    then have h: "hd ys \<noteq> []" unfolding ys_def by (rule hd_dropWhile)
    have xne: "xs \<noteq> []"
    proof
      assume "xs = []" then have "ys = []" by (simp add: ys_def)
      with False show False by simp
    qed
    then have hx: "hd xs \<noteq> []" unfolding xs_def by (rule hd_dropWhile)
    have "rev xs = takeWhile (\<lambda>l. l = []) (rev xs) @ ys"
      unfolding ys_def by simp
    then have "rev (rev xs) = rev (takeWhile (\<lambda>l. l = []) (rev xs) @ ys)" by (rule arg_cong)
    then have "xs = rev ys @ rev (takeWhile (\<lambda>l. l = []) (rev xs))" by simp
    then have "hd xs = hd (rev ys @ rev (takeWhile (\<lambda>l. l = []) (rev xs)))" by (rule arg_cong)
    with False have e: "hd (rev ys) = hd xs" by simp
    have "last (rev ys) = hd ys" by (rule last_rev)
    with e hx h False show ?thesis unfolding trimmed_def by simp
  qed
  then show ?thesis unfolding ys_def xs_def .
qed

lemma trimmed_strip_id:
  "trimmed ls \<Longrightarrow> rev (dropWhile (\<lambda>l. l = []) (rev (dropWhile (\<lambda>l. l = []) ls))) = ls"
proof (cases "ls = []")
  case True then show ?thesis by simp
next
  case False
  assume "trimmed ls"
  with False have h: "hd ls \<noteq> []" and l: "last ls \<noteq> []" by (simp_all add: trimmed_def)
  from False h have 1: "dropWhile (\<lambda>l. l = []) ls = ls" by (cases ls) auto
  from False l have "hd (rev ls) \<noteq> []" by (simp add: hd_rev)
  with False have 2: "dropWhile (\<lambda>l. l = []) (rev ls) = rev ls" by (cases "rev ls") auto
  from 1 2 show ?thesis by simp
qed

lemma trimSpace_trimmed: "trimmed (lines (trimSpace t))"
  by (simp add: trimSpace_lines trimmed_strip)

lemma trimSpace_subset:
  "set (lines (trimSpace t)) \<subseteq> (\<lambda>line. TrimRight line cutset) ` set (lines t)"
proof -
  have "set (lines (trimSpace t)) \<subseteq> set (map (\<lambda>line. TrimRight line cutset) (lines t))"
    unfolding trimSpace_lines
    using set_dropWhileD by (metis (no_types, lifting) set_rev subsetI)
  then show ?thesis by simp
qed

lemma trimSpace_id:
  assumes "\<forall>l\<in>set ls. l = [] \<or> last l \<notin> set cutset" and "trimmed ls"
  shows "trimSpace \<lparr>lines = ls\<rparr> = \<lparr>lines = ls\<rparr>"
proof -
  from assms(1) have "map (\<lambda>line. TrimRight line cutset) ls = ls"
    by (simp add: map_idI TrimRight_id)
  with trimmed_strip_id[OF assms(2)] have "lines (trimSpace \<lparr>lines = ls\<rparr>) = ls"
    by (simp add: trimSpace_lines)
  then show ?thesis by (simp add: trimSpace_def Let_def)
qed

subsection \<open>Tab expansion\<close>

lemma untabify_lines:
  "lines (untabify t 0) = map (\<lambda>line. Replace line TAB [SP, SP, SP, SP]) (lines t)"
  by (simp add: untabify_def Repeat_def Let_def numeral_eq_Suc)

lemma untabify_id:
  assumes "\<forall>l\<in>set ls. TAB \<notin> set l"
  shows "untabify \<lparr>lines = ls\<rparr> w = \<lparr>lines = ls\<rparr>"
  using assms by (simp add: untabify_def Let_def map_idI Replace_id)

subsection \<open>The minimum loop of left-justification\<close>

lemma minStep_cases:
  "minStep line mn = mn \<or> (line \<noteq> [] \<and> minStep line mn = Some (leftSpace line))"
  by (simp add: minStep_def Let_def)

lemma minStep_None: "minStep line mn = None \<longleftrightarrow> mn = None \<and> line = []"
  by (auto simp: minStep_def Let_def)

lemma minStep_length:
  "minStep line (Some a) = Some m \<Longrightarrow> length m \<le> length a"
  by (auto simp: minStep_def Let_def split: if_splits)

lemma minStep_bound:
  "minStep line mn = Some m \<Longrightarrow> line \<noteq> [] \<Longrightarrow> length m \<le> length (leftSpace line)"
  by (cases mn) (auto simp: minStep_def Let_def split: if_splits)

lemma fold_minStep_Some_acc:
  "\<exists>m. fold minStep ls (Some a) = Some m \<and> length m \<le> length a"
proof (induction ls arbitrary: a)
  case Nil then show ?case by simp
next
  case (Cons l ls)
  obtain b where b: "minStep l (Some a) = Some b"
    using minStep_None[of l "Some a"] by (cases "minStep l (Some a)") auto
  from minStep_length[OF b] have "length b \<le> length a" .
  moreover from Cons.IH[of b] obtain m where "fold minStep ls (Some b) = Some m" "length m \<le> length b"
    by blast
  ultimately show ?case using b by auto
qed

lemma fold_minStep_None_iff:
  "fold minStep ls None = None \<longleftrightarrow> (\<forall>l\<in>set ls. l = [])"
proof (induction ls)
  case Nil then show ?case by simp
next
  case (Cons l ls)
  show ?case
  proof (cases "l = []")
    case True
    then have "minStep l None = None" by (simp add: minStep_def)
    with Cons True show ?thesis by simp
  next
    case False
    then have "minStep l None = Some (leftSpace l)" by (simp add: minStep_def)
    moreover obtain m where "fold minStep ls (Some (leftSpace l)) = Some m"
      using fold_minStep_Some_acc by blast
    ultimately show ?thesis using False by simp
  qed
qed

lemma fold_minStep_bound:
  "fold minStep ls mn = Some m \<Longrightarrow> l \<in> set ls \<Longrightarrow> l \<noteq> [] \<Longrightarrow>
     length m \<le> length (leftSpace l)"
proof (induction ls arbitrary: mn)
  case Nil then show ?case by simp
next
  case (Cons x xs)
  from Cons.prems(1) have f: "fold minStep xs (minStep x mn) = Some m" by simp
  show ?case
  proof (cases "l \<in> set xs")
    case True
    from Cons.IH[OF f True Cons.prems(3)] show ?thesis .
  next
    case False
    with Cons.prems(2) have lx: "l = x" by simp
    with Cons.prems(3) obtain b where b: "minStep x mn = Some b"
      using minStep_None[of x mn] by (cases "minStep x mn") auto
    from minStep_bound[OF b] lx Cons.prems(3) have "length b \<le> length (leftSpace l)" by simp
    moreover from fold_minStep_Some_acc[of xs b] f b have "length m \<le> length b" by simp
    ultimately show ?thesis by simp
  qed
qed

lemma fold_minStep_origin:
  "fold minStep ls mn = Some m \<Longrightarrow>
     mn = Some m \<or> (\<exists>l\<in>set ls. l \<noteq> [] \<and> m = leftSpace l)"
proof (induction ls arbitrary: mn)
  case Nil then show ?case by simp
next
  case (Cons x xs)
  from Cons.prems have f: "fold minStep xs (minStep x mn) = Some m" by simp
  from Cons.IH[OF f] minStep_cases[of x mn] show ?case by auto
qed

subsection \<open>Left-justification\<close>

lemma leftJust_blank:
  "\<forall>l\<in>set (lines t). l = [] \<Longrightarrow> leftJust t = t"
  by (simp add: leftJust_def fold_minStep_None_iff[THEN iffD2])

lemma leftJust_Some:
  assumes "l0 \<in> set (lines t)" "l0 \<noteq> []"
  obtains m where "fold minStep (lines t) None = Some m"
    and "lines (leftJust t) = map (\<lambda>line. TrimPrefix line m) (lines t)"
    and "\<exists>l\<in>set (lines t). l \<noteq> [] \<and> m = leftSpace l"
    and "\<forall>l\<in>set (lines t). l \<noteq> [] \<longrightarrow> length m \<le> length (leftSpace l)"
proof -
  from assms have "fold minStep (lines t) None \<noteq> None"
    by (auto simp: fold_minStep_None_iff)
  then obtain m where m: "fold minStep (lines t) None = Some m" by auto
  then have "lines (leftJust t) = map (\<lambda>line. TrimPrefix line m) (lines t)"
    by (simp add: leftJust_def)
  moreover from fold_minStep_origin[OF m] have "\<exists>l\<in>set (lines t). l \<noteq> [] \<and> m = leftSpace l"
    by simp
  moreover from fold_minStep_bound[OF m]
  have "\<forall>l\<in>set (lines t). l \<noteq> [] \<longrightarrow> length m \<le> length (leftSpace l)" by blast
  ultimately show ?thesis using m that by blast
qed

lemma TrimPrefix_Nil [simp]: "TrimPrefix s [] = s"
  by (simp add: TrimPrefix_def)

lemma leftJust_id:
  assumes "l0 \<in> set (lines t)" "l0 \<noteq> []" "leftSpace l0 = []"
  shows "leftJust t = t"
proof -
  from leftJust_Some[OF assms(1,2)] obtain m where
    m: "fold minStep (lines t) None = Some m"
    and b: "\<forall>l\<in>set (lines t). l \<noteq> [] \<longrightarrow> length m \<le> length (leftSpace l)" by metis
  from b assms have "m = []" by auto
  with m show ?thesis by (simp add: leftJust_def)
qed

subsection \<open>The prefix rule\<close>

text \<open>
  C2 (as amended). The prefix rule with marker \<open>"# "\<close> turns the lines \<open>a\<close>, empty, \<open>b\<close> into
  \<open>"# a"\<close>, \<open>"#"\<close>, \<open>"# b"\<close>: on the interior blank line the marker stays, without its trailing
  space. Only a marker of white space alone, such as three spaces, leaves the blank line
  empty.
\<close>

theorem prefix_rule_blank_line:
  "lines (fix_in (IPrefix ''# '') \<lparr>lines = [''a'', [], ''b'']\<rparr>) = [''# a'', ''#'', ''# b''] \<and>
   lines (fix_in (IPrefix ''   '') \<lparr>lines = [''a'', [], ''b'']\<rparr>) = [''   a'', [], ''   b'']"
  by (simp add: fix_in_def IPrefix_def indent_def TrimRight_def cutset_def enumerate_eq_zip
      upt_rec)

text \<open>The lines that the claim expects are not the lines produced.\<close>

theorem prefix_rule_blank_line_counterexample:
  "lines (fix_in (IPrefix ''# '') \<lparr>lines = [''a'', [], ''b'']\<rparr>) \<noteq> [''# a'', [], ''# b'']"
  by (simp add: fix_in_def IPrefix_def indent_def TrimRight_def cutset_def enumerate_eq_zip
      upt_rec)

lemma cleanup_fixed:
  assumes ne: "ls \<noteq> []" and tidy: "\<forall>l\<in>set ls. tidy l" and tr: "trimmed ls"
    and z: "l0 \<in> set ls" "l0 \<noteq> []" "leftSpace l0 = []"
  shows "cleanup (Join ls [LF]) = \<lparr>lines = ls\<rparr>"
proof -
  from tidy have "\<forall>l\<in>set ls. LF \<notin> set l" by (simp add: tidy_def)
  with ne have 1: "newBlock (Join ls [LF]) = \<lparr>lines = ls\<rparr>"
    by (simp add: newBlock_def Split_Join)
  from tidy have "\<forall>l\<in>set ls. l = [] \<or> last l \<notin> set cutset" by (simp add: tidy_def)
  then have 2: "trimSpace \<lparr>lines = ls\<rparr> = \<lparr>lines = ls\<rparr>" using tr by (rule trimSpace_id)
  from tidy have "\<forall>l\<in>set ls. TAB \<notin> set l" by (simp add: tidy_def)
  then have 3: "untabify \<lparr>lines = ls\<rparr> 0 = \<lparr>lines = ls\<rparr>" by (rule untabify_id)
  have 4: "leftJust \<lparr>lines = ls\<rparr> = \<lparr>lines = ls\<rparr>"
    using z by (intro leftJust_id[of l0]) simp_all
  show ?thesis by (simp add: cleanup_def 1 2 3 4)
qed

lemma untab_tidy:
  assumes "LF \<notin> set l1" and "l1 = [] \<or> last l1 \<notin> set cutset"
  shows "tidy (Replace l1 TAB [SP, SP, SP, SP])"
proof -
  let ?l = "Replace l1 TAB [SP, SP, SP, SP]"
  have s: "set ?l \<subseteq> (set l1 - {TAB}) \<union> set [SP, SP, SP, SP]" by (rule Replace_set)
  from s assms(1) have a: "LF \<notin> set ?l" by auto
  from s have b: "TAB \<notin> set ?l" by auto
  have c: "?l = [] \<or> last ?l \<notin> set cutset"
  proof (cases "l1 = []")
    case True then show ?thesis by (simp add: Replace_def)
  next
    case False
    with assms(2) have l: "last l1 \<notin> set cutset" by simp
    then have "last l1 \<noteq> TAB" by (auto simp: cutset_def)
    with False have "last ?l = last l1" by (rule Replace_last)
    with l show ?thesis by simp
  qed
  from a b c show ?thesis by (simp add: tidy_def)
qed

lemma trimmed_map:
  assumes "trimmed ls" and "\<And>l. l \<in> set ls \<Longrightarrow> l \<noteq> [] \<Longrightarrow> f l \<noteq> []"
  shows "trimmed (map f ls)"
proof (cases "ls = []")
  case True then show ?thesis by (simp add: trimmed_def)
next
  case False
  with assms(1) have h: "hd ls \<noteq> []" and l: "last ls \<noteq> []" by (simp_all add: trimmed_def)
  from False have "hd ls \<in> set ls" "last ls \<in> set ls" by simp_all
  with assms(2) h l have "f (hd ls) \<noteq> []" "f (last ls) \<noteq> []" by blast+
  with False show ?thesis by (simp add: trimmed_def hd_map last_map)
qed

lemma stage2_tidy:
  "l \<in> set (lines (untabify (trimSpace (newBlock text)) 0)) \<Longrightarrow> tidy l"
proof -
  assume "l \<in> set (lines (untabify (trimSpace (newBlock text)) 0))"
  then obtain l1 where l1: "l1 \<in> set (lines (trimSpace (newBlock text)))"
    and l: "l = Replace l1 TAB [SP, SP, SP, SP]" by (auto simp: untabify_lines)
  from l1 trimSpace_subset[of "newBlock text"] obtain l0 where
    l0: "l0 \<in> set (Split text LF)" and t: "l1 = TrimRight l0 cutset"
    by (auto simp: newBlock_def)
  from Split_no_sep[OF l0] TrimRight_set[of l0 cutset] t have "LF \<notin> set l1" by auto
  moreover from t TrimRight_last[of l0 cutset] have "l1 = [] \<or> last l1 \<notin> set cutset" by auto
  ultimately show "tidy l" unfolding l by (rule untab_tidy)
qed

lemma stage2_trimmed: "trimmed (lines (untabify (trimSpace (newBlock text)) 0))"
  unfolding untabify_lines
  by (rule trimmed_map[OF trimSpace_trimmed]) (simp add: Replace_Nil_iff)

lemma TrimPrefix_keeps:
  assumes "l \<noteq> []" and "leftSpace l \<noteq> l" and "length m \<le> length (leftSpace l)"
  shows "TrimPrefix l m \<noteq> []" and "last (TrimPrefix l m) = last l"
proof -
  from leftSpace_prefix[of l] obtain r where r: "l = leftSpace l @ r"
    by (auto simp: prefix_def)
  with assms(2) have "r \<noteq> []" by auto
  then have "length (leftSpace l) < length (leftSpace l @ r)" by simp
  with r have "length (leftSpace l) < length l" by simp
  with assms(3) have lt: "length m < length l" by simp
  then show "TrimPrefix l m \<noteq> []" using assms(1) by (simp add: TrimPrefix_def)
  from lt show "last (TrimPrefix l m) = last l" by (simp add: TrimPrefix_def last_drop)
qed

lemma TrimPrefix_set: "set (TrimPrefix l m) \<subseteq> set l"
  by (auto simp: TrimPrefix_def dest: in_set_dropD)

lemma TrimPrefix_tidy:
  assumes "tidy l" and "l \<noteq> [] \<longrightarrow> leftSpace l \<noteq> l \<and> length m \<le> length (leftSpace l)"
  shows "tidy (TrimPrefix l m)"
proof (cases "l = []")
  case True then show ?thesis by (simp add: TrimPrefix_def tidy_def)
next
  case False
  with assms(2) TrimPrefix_keeps[of l m] have "last (TrimPrefix l m) = last l" by simp
  with assms(1) False TrimPrefix_set[of l m] show ?thesis by (auto simp: tidy_def)
qed

lemma normalize_Nil: "normalize [] = []"
  by (simp add: normalize_def cleanup_def newBlock_def trimSpace_def untabify_def leftJust_def
      block_String_def TrimRight_def Let_def)

subsection \<open>Idempotence of normalization\<close>

text \<open>
  C3 (as amended). Normalization is idempotent on every text in which no line, once its
  trailing spaces, tabs, carriage returns and newlines are removed and its tabs are
  expanded, is a non-empty run of white space only. (Such a line must end in a white-space
  rune outside the cut set: a vertical tab, a form feed or a non-ASCII space.)
\<close>

theorem normalize_idempotent:
  assumes H: "\<forall>l\<in>set (lines (untabify (trimSpace (newBlock text)) 0)).
                l \<noteq> [] \<longrightarrow> leftSpace l \<noteq> l"
  shows "normalize (normalize text) = normalize text"
proof -
  define b2 where "b2 = untabify (trimSpace (newBlock text)) 0"
  have c: "cleanup text = leftJust b2" by (simp add: cleanup_def b2_def)
  have tidy2: "\<forall>l\<in>set (lines b2). tidy l" unfolding b2_def using stage2_tidy by blast
  have tr2: "trimmed (lines b2)" unfolding b2_def by (rule stage2_trimmed)
  from H have H2: "\<forall>l\<in>set (lines b2). l \<noteq> [] \<longrightarrow> leftSpace l \<noteq> l" by (simp add: b2_def)
  show ?thesis
  proof (cases "lines b2 = []")
    case True
    then have "leftJust b2 = b2" by (intro leftJust_blank) simp
    with True c have "normalize text = []" by (simp add: normalize_def block_String_def)
    then show ?thesis by (simp add: normalize_Nil)
  next
    case False
    with tr2 have h: "hd (lines b2) \<noteq> []" by (simp add: trimmed_def)
    from False have hin: "hd (lines b2) \<in> set (lines b2)" by simp
    from leftJust_Some[OF hin h] obtain m where
      l3: "lines (leftJust b2) = map (\<lambda>line. TrimPrefix line m) (lines b2)"
      and org: "\<exists>l\<in>set (lines b2). l \<noteq> [] \<and> m = leftSpace l"
      and bnd: "\<forall>l\<in>set (lines b2). l \<noteq> [] \<longrightarrow> length m \<le> length (leftSpace l)" by metis
    define ls where "ls = lines (leftJust b2)"
    have ne: "ls \<noteq> []" using False by (simp add: ls_def l3)
    have tidy3: "\<forall>l\<in>set ls. tidy l"
    proof
      fix l assume "l \<in> set ls"
      then obtain l2 where l2: "l2 \<in> set (lines b2)" and l: "l = TrimPrefix l2 m"
        by (auto simp: ls_def l3)
      from l2 tidy2 have "tidy l2" by simp
      moreover from l2 H2 bnd
      have "l2 \<noteq> [] \<longrightarrow> leftSpace l2 \<noteq> l2 \<and> length m \<le> length (leftSpace l2)" by simp
      ultimately show "tidy l" unfolding l by (rule TrimPrefix_tidy)
    qed
    have tr3: "trimmed ls" unfolding ls_def l3
    proof (rule trimmed_map[OF tr2])
      fix l assume "l \<in> set (lines b2)" "l \<noteq> []"
      with H2 bnd show "TrimPrefix l m \<noteq> []" by (intro TrimPrefix_keeps(1)) simp_all
    qed
    from org obtain lm where lm: "lm \<in> set (lines b2)" "lm \<noteq> []" "m = leftSpace lm" by blast
    define l0 where "l0 = TrimPrefix lm m"
    have "l0 = drop (length (leftSpace lm)) lm"
      by (simp add: l0_def lm(3) TrimPrefix_def leftSpace_prefix)
    then have z: "leftSpace l0 = []" by (simp add: leftSpace_rest)
    from lm H2 bnd have l0ne: "l0 \<noteq> []" unfolding l0_def by (intro TrimPrefix_keeps(1)) simp_all
    from lm(1) have l0in: "l0 \<in> set ls" by (auto simp: ls_def l3 l0_def)
    from cleanup_fixed[OF ne tidy3 tr3 l0in l0ne z]
    have "cleanup (Join ls [LF]) = \<lparr>lines = ls\<rparr>" .
    moreover have "normalize text = Join ls [LF]"
      by (simp add: normalize_def block_String_def c ls_def)
    ultimately show ?thesis by (simp add: normalize_def block_String_def)
  qed
qed

text \<open>The hypothesis holds of a text with tabs, trailing blanks and blank lines.\<close>

theorem normalize_idempotent_witness:
  "normalize (normalize ([LF, SP, SP] @ ''ab '' @ [TAB, CR, LF, TAB] @ ''cd'' @ [LF, LF, SP, CHR ''x'', LF, SP, LF]))
     = normalize ([LF, SP, SP] @ ''ab '' @ [TAB, CR, LF, TAB] @ ''cd'' @ [LF, LF, SP, CHR ''x'', LF, SP, LF])"
proof -
  have h: "\<forall>l\<in>set (lines (untabify (trimSpace (newBlock
      ([LF, SP, SP] @ ''ab '' @ [TAB, CR, LF, TAB] @ ''cd'' @ [LF, LF, SP, CHR ''x'', LF, SP, LF]))) 0)).
                l \<noteq> [] \<longrightarrow> leftSpace l \<noteq> l"
    by code_simp
  show ?thesis using normalize_idempotent[OF h] .
qed

text \<open>
  Without the hypothesis idempotence fails. In the text of the two lines \<open>"\v"\<close> and
  \<open>"\va"\<close> the vertical tab survives trimming, is the common leading space, and removing it
  leaves a blank first line, which a second normalization drops.
\<close>

theorem normalize_idempotent_counterexample:
  "normalize (normalize [CHR 0x0B, LF, CHR 0x0B, CHR ''a'']) \<noteq> normalize [CHR 0x0B, LF, CHR 0x0B, CHR ''a'']"
  by code_simp

lemma fold_lcp_acc:
  "prefix (fold (\<lambda>x p. longest_common_prefix p (g x)) xs a) a"
proof (induction xs arbitrary: a)
  case Nil then show ?case by simp
next
  case (Cons x xs)
  have "prefix (fold (\<lambda>x p. longest_common_prefix p (g x)) xs (longest_common_prefix a (g x)))
          (longest_common_prefix a (g x))" by (rule Cons.IH)
  also have "prefix (longest_common_prefix a (g x)) a" by (rule longest_common_prefix_prefix1)
  finally show ?case by simp
qed

lemma fold_lcp_elem:
  "y \<in> set xs \<Longrightarrow> prefix (fold (\<lambda>x p. longest_common_prefix p (g x)) xs a) (g y)"
proof (induction xs arbitrary: a)
  case Nil then show ?case by simp
next
  case (Cons x xs)
  show ?case
  proof (cases "y = x")
    case True
    have "prefix (fold (\<lambda>x p. longest_common_prefix p (g x)) xs (longest_common_prefix a (g x)))
          (longest_common_prefix a (g x))" by (rule fold_lcp_acc)
    also have "prefix (longest_common_prefix a (g x)) (g x)" by (rule longest_common_prefix_prefix2)
    finally show ?thesis using True by simp
  next
    case False
    with Cons.prems have "y \<in> set xs" by simp
    from Cons.IH[OF this] show ?thesis by simp
  qed
qed

lemma fold_lcp_greatest:
  "prefix p a \<Longrightarrow> \<forall>x\<in>set xs. prefix p (g x) \<Longrightarrow>
     prefix p (fold (\<lambda>x p. longest_common_prefix p (g x)) xs a)"
proof (induction xs arbitrary: a)
  case Nil then show ?case by simp
next
  case (Cons x xs)
  from Cons.prems have "prefix p (longest_common_prefix a (g x))"
    by (intro longest_common_prefix_max_prefix) simp_all
  from Cons.IH[OF this] Cons.prems(2) show ?case by simp
qed

lemma commonLeftSpace_blank: "\<forall>l\<in>set ls. l = [] \<Longrightarrow> commonLeftSpace ls = []"
proof -
  assume "\<forall>l\<in>set ls. l = []"
  then have "filter (\<lambda>l. l \<noteq> []) ls = []" by (simp add: filter_empty_conv)
  then show ?thesis by (simp add: commonLeftSpace_def)
qed

lemma commonLeftSpace_eq:
  assumes lm: "lm \<in> set ls" "lm \<noteq> []"
    and all: "\<forall>l\<in>set ls. l \<noteq> [] \<longrightarrow> prefix (leftSpace lm) (leftSpace l)"
  shows "commonLeftSpace ls = leftSpace lm"
proof -
  from lm have in_f: "lm \<in> set (filter (\<lambda>l. l \<noteq> []) ls)" by simp
  then obtain l1 rest where f: "filter (\<lambda>l. l \<noteq> []) ls = l1 # rest"
    by (cases "filter (\<lambda>l. l \<noteq> []) ls") auto
  define r where "r = fold (\<lambda>x p. longest_common_prefix p (leftSpace x)) rest (leftSpace l1)"
  have c: "commonLeftSpace ls = r" by (simp add: commonLeftSpace_def f r_def)
  have mem: "x \<in> set ls \<and> x \<noteq> []" if "x = l1 \<or> x \<in> set rest" for x
  proof -
    from that have "x \<in> set (filter (\<lambda>l. l \<noteq> []) ls)" unfolding f by auto
    then show ?thesis by simp
  qed
  have up: "prefix r (leftSpace lm)"
  proof (cases "lm = l1")
    case True then show ?thesis unfolding r_def by (simp add: fold_lcp_acc)
  next
    case False
    with in_f f have "lm \<in> set rest" by simp
    then show ?thesis unfolding r_def by (rule fold_lcp_elem)
  qed
  have "prefix (leftSpace lm) (leftSpace l1)" using all mem[of l1] by simp
  moreover have "\<forall>x\<in>set rest. prefix (leftSpace lm) (leftSpace x)" using all mem by simp
  ultimately have "prefix (leftSpace lm) r" unfolding r_def by (rule fold_lcp_greatest)
  with up c show ?thesis by (simp add: prefix_order.antisym)
qed

subsection \<open>Left-justification and the common prefix\<close>

text \<open>
  C6 (as amended). \<open>leftJust\<close>, the last step of \<open>cleanup\<close>, removes from every line the
  longest common leading-white-space prefix of the non-blank lines, blank lines staying
  empty and taking no part in the minimum, provided the leading white space of the
  non-blank lines is nested: of any two, one is a prefix of the other (as it is when all
  of it is ASCII spaces and expanded tabs). Then that prefix is a prefix of the leading
  space of every non-blank line.
\<close>

theorem leftJust_strips_common_prefix:
  assumes chain: "\<forall>a\<in>set (lines t). \<forall>b\<in>set (lines t). a \<noteq> [] \<and> b \<noteq> [] \<longrightarrow>
            prefix (leftSpace a) (leftSpace b) \<or> prefix (leftSpace b) (leftSpace a)"
  shows "lines (leftJust t) = leftJust_spec (lines t) \<and>
         (\<forall>l\<in>set (lines t). l \<noteq> [] \<longrightarrow> prefix (commonLeftSpace (lines t)) (leftSpace l))"
proof (cases "\<forall>l\<in>set (lines t). l = []")
  case True
  then have "leftJust t = t" by (rule leftJust_blank)
  moreover from True have "commonLeftSpace (lines t) = []" by (rule commonLeftSpace_blank)
  ultimately show ?thesis using True by (simp add: leftJust_spec_def)
next
  case False
  then obtain l0 where l0: "l0 \<in> set (lines t)" "l0 \<noteq> []" by blast
  from leftJust_Some[OF l0] obtain m where
    l3: "lines (leftJust t) = map (\<lambda>line. TrimPrefix line m) (lines t)"
    and org: "\<exists>l\<in>set (lines t). l \<noteq> [] \<and> m = leftSpace l"
    and bnd: "\<forall>l\<in>set (lines t). l \<noteq> [] \<longrightarrow> length m \<le> length (leftSpace l)" by metis
  from org obtain lm where lm: "lm \<in> set (lines t)" "lm \<noteq> []" "m = leftSpace lm" by blast
  have pre: "prefix m (leftSpace l)" if l: "l \<in> set (lines t)" "l \<noteq> []" for l
  proof -
    from chain l lm consider "prefix m (leftSpace l)" | "prefix (leftSpace l) m" by blast
    then show ?thesis
    proof cases
      case 1 then show ?thesis .
    next
      case 2
      then have "length (leftSpace l) \<le> length m" by (rule prefix_length_le)
      moreover from bnd l have "length m \<le> length (leftSpace l)" by blast
      ultimately have "length (leftSpace l) = length m" by simp
      with 2 have "leftSpace l = m" by (auto simp: prefix_def)
      then show ?thesis by simp
    qed
  qed
  then have "\<forall>l\<in>set (lines t). l \<noteq> [] \<longrightarrow> prefix (leftSpace lm) (leftSpace l)"
    using lm(3) by simp
  from commonLeftSpace_eq[OF lm(1,2) this] lm(3) have c: "commonLeftSpace (lines t) = m" by simp
  have "TrimPrefix l m = drop (length m) l" if l: "l \<in> set (lines t)" for l
  proof (cases "l = []")
    case True then show ?thesis by (simp add: TrimPrefix_def)
  next
    case False
    from pre[OF l False] leftSpace_prefix[of l] have "prefix m l" by (rule prefix_order.trans)
    then show ?thesis by (simp add: TrimPrefix_def)
  qed
  then have "lines (leftJust t) = leftJust_spec (lines t)"
    by (simp add: l3 leftJust_spec_def c)
  with pre c show ?thesis by simp
qed

text \<open>The hypothesis holds of lines indented by two and by four spaces around a blank line.\<close>

theorem leftJust_strips_common_prefix_witness:
  "lines (leftJust \<lparr>lines = [[SP, SP, CHR ''a''], [], [SP, SP, SP, SP, CHR ''b'']]\<rparr>)
     = [''a'', [], [SP, SP, CHR ''b'']] \<and>
   leftJust_spec [[SP, SP, CHR ''a''], [], [SP, SP, SP, SP, CHR ''b'']]
     = [''a'', [], [SP, SP, CHR ''b'']] \<and>
   commonLeftSpace [[SP, SP, CHR ''a''], [], [SP, SP, SP, SP, CHR ''b'']] = [SP, SP]"
proof -
  have h: "\<forall>a\<in>set (lines \<lparr>lines = [[SP, SP, CHR ''a''], [], [SP, SP, SP, SP, CHR ''b'']]\<rparr>).
           \<forall>b\<in>set (lines \<lparr>lines = [[SP, SP, CHR ''a''], [], [SP, SP, SP, SP, CHR ''b'']]\<rparr>).
             a \<noteq> [] \<and> b \<noteq> [] \<longrightarrow>
             prefix (leftSpace a) (leftSpace b) \<or> prefix (leftSpace b) (leftSpace a)"
    by code_simp
  have e: "leftJust_spec [[SP, SP, CHR ''a''], [], [SP, SP, SP, SP, CHR ''b'']]
     = [''a'', [], [SP, SP, CHR ''b'']]"
     "commonLeftSpace [[SP, SP, CHR ''a''], [], [SP, SP, SP, SP, CHR ''b'']] = [SP, SP]"
    by code_simp+
  from leftJust_strips_common_prefix[OF h] e show ?thesis by simp
qed

text \<open>
  Lines that begin with different white space: a no-break space (two bytes) before \<open>a\<close>,
  two spaces before \<open>b\<close>. The code takes the first shortest run, the no-break space, and
  removes it from the first line only, although the two lines share no prefix; the same
  happens inside \<open>cleanup\<close>, since tab expansion leaves both lines as they are.
\<close>

theorem leftJust_strips_common_prefix_counterexample:
  "lines (leftJust \<lparr>lines = [[CHR 0xC2, CHR 0xA0, CHR ''a''], [SP, SP, CHR ''b'']]\<rparr>)
     \<noteq> leftJust_spec [[CHR 0xC2, CHR 0xA0, CHR ''a''], [SP, SP, CHR ''b'']] \<and>
   lines (cleanup [CHR 0xC2, CHR 0xA0, CHR ''a'', LF, SP, SP, CHR ''b''])
     \<noteq> leftJust_spec (lines (untabify (trimSpace (newBlock
           [CHR 0xC2, CHR 0xA0, CHR ''a'', LF, SP, SP, CHR ''b''])) 0)) \<and>
   lines (cleanup [CHR 0xC2, CHR 0xA0, CHR ''a'', LF, SP, SP, CHR ''b''])
     = [''a'', [SP, SP, CHR ''b'']]"
  by code_simp

section \<open>Properties of the choice of indenting rule\<close>

lemma indent_map_guess: "indent_map ''guess'' = None"
  by (simp add: indent_map_def)

lemma indent_map_vals:
  "map_index indent_map ''hash'' = IPrefix ''# ''"
  "map_index indent_map ''slash'' = IPrefix ''// ''"
  "map_index indent_map ''star'' = IComment ''/*'' ''   '' '' */''"
  "map_index indent_map ''xml'' = IComment ''<!--'' ''   '' ''  -->''"
  by (simp_all add: indent_map_def map_index_def)

text \<open>
  C8. With the style \<open>guess\<close> the rule chosen is a function of the extension of the path
  alone, defined for every path: the hash prefix rule for no extension and for \<open>.sh\<close>,
  \<open>.py\<close>, \<open>.pl\<close>, \<open>.rb\<close>; the slash prefix rule for \<open>.cc\<close>, \<open>.cpp\<close>, \<open>.go\<close>, \<open>.java\<close>, \<open>.js\<close>;
  the star comment rule for \<open>.c\<close> and \<open>.h\<close>; the xml comment rule for \<open>.htm\<close>, \<open>.html\<close>,
  \<open>.xhtml\<close>; and no rule (\<open>nil\<close>, which leaves a block as it is) for anything else.
\<close>

theorem chooseIndent_guess:
  "chooseIndent ''guess'' path =
     (if Ext path \<in> {[], ''.sh'', ''.py'', ''.pl'', ''.rb''} then IPrefix ''# ''
      else if Ext path \<in> {''.cc'', ''.cpp'', ''.go'', ''.java'', ''.js''} then IPrefix ''// ''
      else if Ext path \<in> {''.c'', ''.h''} then IComment ''/*'' ''   '' '' */''
      else if Ext path \<in> {''.htm'', ''.html'', ''.xhtml''}
        then IComment ''<!--'' ''   '' ''  -->''
      else None)"
  unfolding chooseIndent_def indent_map_guess indent_map_vals Let_def by simp

text \<open>The rule chosen for some paths, and what the star rule and no rule do to a block.\<close>

theorem chooseIndent_guess_witness:
  "chooseIndent ''guess'' ''cmd/main.go'' = IPrefix ''// '' \<and>
   chooseIndent ''guess'' ''tool.py'' = IPrefix ''# '' \<and>
   chooseIndent ''guess'' ''a.b/Makefile'' = IPrefix ''# '' \<and>
   chooseIndent ''guess'' ''x.h'' = IComment ''/*'' ''   '' '' */'' \<and>
   chooseIndent ''guess'' ''index.html'' = IComment ''<!--'' ''   '' ''  -->'' \<and>
   chooseIndent ''guess'' ''lib.rs'' = None \<and>
   fix_in (chooseIndent ''guess'' ''lib.rs'') \<lparr>lines = [''x'']\<rparr> = \<lparr>lines = [''x'']\<rparr> \<and>
   lines (fix_in (chooseIndent ''guess'' ''x.h'') \<lparr>lines = [''x'']\<rparr>)
     = [''/*'', ''   x'', '' */'']"
  by (simp add: chooseIndent_guess Ext_def fix_in_def IComment_def indent_def prepend_def
      append_b_def TrimRight_def cutset_def enumerate_eq_zip)

section \<open>Properties of the license text written\<close>

text \<open>
  The text written for the 3-clause BSD license ends with the last line of the disclaimer
  and one newline.
\<close>

lemma WriteText_bsd3c_one_newline:
  "(case WriteText (Some bsd3c) cfg0 of
      Inl e \<Rightarrow> False
    | Inr out \<Rightarrow> suffix (''OF SUCH DAMAGE.'' @ [LF]) out)"
  by code_simp

text \<open>
  C5. The text written for the FreeBSD license with an empty \<open>Project\<close> does not end with
  exactly one newline: the last line of the normalized template is \<open>{{end}}\<close>, the newline
  appended after it follows the newline before the skipped \<open>{{if .Project}}\<close> block, and the
  output ends with the last line of the disclaimer, a newline and an empty line.
\<close>

theorem WriteText_freebsd_blank_last_line:
  "(case WriteText (Some freebsd) cfg0 of
      Inl e \<Rightarrow> False
    | Inr out \<Rightarrow> suffix (''OF SUCH DAMAGE.'' @ [LF, LF]) out)"
  by code_simp

section \<open>Properties of file annotation\<close>

lemmas fs_defs = file_Seek0_def os_CreateTemp_def write_tmp_def io_Copy_def file_Sync_def
  file_Close_def os_Rename_def os_Remove_def fill_tmp_def logop_def new_ops_def

text \<open>
  C7. For a license without per-file text \<open>EditFile\<close> returns \<open>nil\<close> and the world is the
  one it was called in: no file content, no offset and no entry of the operation log has
  changed, so no temporary file was created and nothing was renamed.
\<close>

theorem EditFile_noop:
  "PerFile l = [] \<longrightarrow> EditFile (Some l) f c ind env w = (None, w)"
  by (simp add: EditFile_def)

theorem EditFile_noop_witness:
  "PerFile (slug_only ''x'') = [] \<and>
   EditFile (Some (slug_only ''x'')) ''/p/a.go'' cfg0 (IPrefix ''// '') env_ok w0 = (None, w0) \<and>
   new_ops w0 (snd (EditFile (Some (slug_only ''x'')) ''/p/a.go'' cfg0 (IPrefix ''// '')
                      env_ok w0)) = []"
  using EditFile_noop [of "slug_only ''x''" "''/p/a.go''" cfg0 "IPrefix ''// ''" env_ok w0]
  by (simp add: slug_only_def new_ops_def)

text \<open>
  C1. In every call of \<open>EditFile\<close> in which the write of the header to the temporary file
  \<open>t\<close>, the copy of \<open>f\<close> into it or its sync fails, an error is returned, the file system is
  the one before the call (the content at the path of \<open>f\<close> is unchanged and \<open>t\<close>, which the
  call created, is gone again) and no rename was attempted. A rename, when there is one,
  is onto \<open>f\<close> and comes after a successful write, copy, sync and close of its source.
\<close>

theorem EditFile_failure_atomic:
  assumes run: "EditFile lic f c ind env w = (res, w')"
  shows "(OpWrite t False \<in> set (new_ops w w') \<or> OpCopy f t False \<in> set (new_ops w w')
            \<or> OpSync t False \<in> set (new_ops w w')
          \<longrightarrow> res \<noteq> None \<and> files w' = files w \<and> files w' t = None
              \<and> OpCreateTemp t True \<in> set (new_ops w w') \<and> OpRemove t \<in> set (new_ops w w')
              \<and> (\<forall>a b ok. OpRename a b ok \<notin> set (new_ops w w')))
       \<and> (\<forall>a b ok. OpRename a b ok \<in> set (new_ops w w')
          \<longrightarrow> b = f \<and> OpWrite a True \<in> set (new_ops w w')
              \<and> OpCopy f a True \<in> set (new_ops w w')
              \<and> OpSync a True \<in> set (new_ops w w') \<and> OpClose a True \<in> set (new_ops w w'))"
  using assms
  by (auto simp: EditFile_def fs_defs Let_def fun_upd_idem_iff
      split: option.splits sum.splits prod.splits if_splits)

text \<open>
  A call in which the copy fails after four bytes, and the same call in an environment
  without failures.
\<close>

lemma EditFile_copy_fails_result:
  "fst (EditFile (Some notice_only) ''/p/a.go'' cfg0 (IPrefix ''// '') env_copy w0)
     = Some CopyError"
  by code_simp

lemma EditFile_copy_fails_ops:
  "new_ops w0 (snd (EditFile (Some notice_only) ''/p/a.go'' cfg0 (IPrefix ''// '') env_copy w0))
   = [OpSeek ''/p/a.go'' True, OpCreateTemp ''/p/a.go~1'' True, OpWrite ''/p/a.go~1'' True,
      OpCopy ''/p/a.go'' ''/p/a.go~1'' False, OpClose ''/p/a.go~1'' True,
      OpRemove ''/p/a.go~1'']"
  by code_simp

lemma EditFile_succeeds_ops:
  "new_ops w0 (snd (EditFile (Some notice_only) ''/p/a.go'' cfg0 (IPrefix ''// '') env_ok w0))
   = [OpSeek ''/p/a.go'' True, OpCreateTemp ''/p/a.go~1'' True, OpWrite ''/p/a.go~1'' True,
      OpCopy ''/p/a.go'' ''/p/a.go~1'' True, OpSync ''/p/a.go~1'' True,
      OpClose ''/p/a.go~1'' True, OpRename ''/p/a.go~1'' ''/p/a.go'' True,
      OpRemove ''/p/a.go~1'']"
  by code_simp

lemma EditFile_succeeds_content:
  "files (snd (EditFile (Some notice_only) ''/p/a.go'' cfg0 (IPrefix ''// '') env_ok w0))
     ''/p/a.go''
   = Some (''// Copyright (C) 2018 A. U. Thor. All Rights Reserved.'' @ [LF, LF] @ ''package a'')"
  by code_simp

theorem EditFile_failure_atomic_witness:
  "OpCopy ''/p/a.go'' ''/p/a.go~1'' False
     \<in> set (new_ops w0 (snd (EditFile (Some notice_only) ''/p/a.go'' cfg0 (IPrefix ''// '')
                                env_copy w0))) \<and>
   fst (EditFile (Some notice_only) ''/p/a.go'' cfg0 (IPrefix ''// '') env_copy w0)
     = Some CopyError \<and>
   files (snd (EditFile (Some notice_only) ''/p/a.go'' cfg0 (IPrefix ''// '') env_copy w0))
     ''/p/a.go'' = Some ''package a'' \<and>
   files (snd (EditFile (Some notice_only) ''/p/a.go'' cfg0 (IPrefix ''// '') env_copy w0))
     ''/p/a.go~1'' = None \<and>
   OpRename ''/p/a.go~1'' ''/p/a.go'' True
     \<in> set (new_ops w0 (snd (EditFile (Some notice_only) ''/p/a.go'' cfg0 (IPrefix ''// '')
                                env_ok w0))) \<and>
   OpSync ''/p/a.go~1'' True
     \<in> set (new_ops w0 (snd (EditFile (Some notice_only) ''/p/a.go'' cfg0 (IPrefix ''// '')
                                env_ok w0)))"
proof -
  let ?bad = "EditFile (Some notice_only) ''/p/a.go'' cfg0 (IPrefix ''// '') env_copy w0"
  let ?good = "EditFile (Some notice_only) ''/p/a.go'' cfg0 (IPrefix ''// '') env_ok w0"
  have c: "OpCopy ''/p/a.go'' ''/p/a.go~1'' False \<in> set (new_ops w0 (snd ?bad))"
    by (simp add: EditFile_copy_fails_ops)
  have "files (snd ?bad) = files w0 \<and> files (snd ?bad) ''/p/a.go~1'' = None"
    using EditFile_failure_atomic [where lic = "Some notice_only" and f = "''/p/a.go''"
        and c = cfg0 and ind = "IPrefix ''// ''" and env = env_copy and w = w0
        and t = "''/p/a.go~1''", OF surjective_pairing] c
    by blast
  then have f: "files (snd ?bad) ''/p/a.go'' = Some ''package a''"
    "files (snd ?bad) ''/p/a.go~1'' = None"
    by (simp_all add: w0_def)
  have r: "OpRename ''/p/a.go~1'' ''/p/a.go'' True \<in> set (new_ops w0 (snd ?good))"
    by (simp add: EditFile_succeeds_ops)
  have "OpSync ''/p/a.go~1'' True \<in> set (new_ops w0 (snd ?good))"
    using EditFile_failure_atomic [where lic = "Some notice_only" and f = "''/p/a.go''"
        and c = cfg0 and ind = "IPrefix ''// ''" and env = env_ok and w = w0
        and t = "''/p/a.go~1''", OF surjective_pairing] r
    by blast
  with c f r EditFile_copy_fails_result show ?thesis by simp
qed

end
